theory Spec2Isabelle
  imports Main "HOL-Library.Sublist" "HOL-Library.Monad_Syntax"
begin

section \<open>Python strings\<close>

text \<open>
  A Python \<open>str\<close> is a sequence of code points. It is modelled as a \<open>string\<close> whose
  characters stand for the code points 0 to 255 (ASCII and Latin-1), read with
  \<open>of_char\<close>. The character classes below are those of CPython for that range.
\<close>

text \<open>\<open>str.isspace\<close> on one character, which is also the class \<open>\s\<close> of \<open>re\<close>
  and the set that \<open>str.strip()\<close> removes.\<close>

definition isspace :: "char \<Rightarrow> bool" where
  "isspace c = (let n = (of_char c :: nat) in
     (9 \<le> n \<and> n \<le> 13) \<or> (28 \<le> n \<and> n \<le> 32) \<or> n = 133 \<or> n = 160)"

text \<open>The class \<open>\w\<close> of \<open>re\<close> for a \<open>str\<close> pattern: alphanumeric or underscore.\<close>

definition isword :: "char \<Rightarrow> bool" where
  "isword c = (let n = (of_char c :: nat) in
     (48 \<le> n \<and> n \<le> 57) \<or> (65 \<le> n \<and> n \<le> 90) \<or> n = 95 \<or> (97 \<le> n \<and> n \<le> 122)
     \<or> n = 170 \<or> n = 178 \<or> n = 179 \<or> n = 181 \<or> (185 \<le> n \<and> n \<le> 186)
     \<or> (188 \<le> n \<and> n \<le> 190) \<or> (192 \<le> n \<and> n \<le> 214) \<or> (216 \<le> n \<and> n \<le> 246)
     \<or> 248 \<le> n)"

text \<open>\<open>str.lower()\<close>: every code point below 256 lower-cases to one code point
  below 256.\<close>

definition lower_char :: "char \<Rightarrow> char" where
  "lower_char c = (let n = (of_char c :: nat) in
     if (65 \<le> n \<and> n \<le> 90) \<or> (192 \<le> n \<and> n \<le> 222 \<and> n \<noteq> 215)
     then char_of (n + 32) else c)"

definition lower :: "string \<Rightarrow> string" where
  "lower s = map lower_char s"

text \<open>\<open>str.upper()\<close>: the result is a list of code points, since the sharp s (223)
  becomes \<open>SS\<close>, the micro sign (181) becomes U+039C and y with diaeresis (255)
  becomes U+0178.\<close>

definition upper_char :: "char \<Rightarrow> nat list" where
  "upper_char c = (let n = (of_char c :: nat) in
     if (97 \<le> n \<and> n \<le> 122) \<or> (224 \<le> n \<and> n \<le> 254 \<and> n \<noteq> 247) then [n - 32]
     else if n = 223 then [83, 83]
     else if n = 181 then [924]
     else if n = 255 then [376]
     else [n])"

definition upper :: "string \<Rightarrow> nat list" where
  "upper s = concat (map upper_char s)"

definition code_points :: "string \<Rightarrow> nat list" where
  "code_points s = map of_char s"

definition startswith :: "'a list \<Rightarrow> 'a list \<Rightarrow> bool" where
  "startswith s p = prefix p s"

definition endswith :: "'a list \<Rightarrow> 'a list \<Rightarrow> bool" where
  "endswith s p = suffix p s"

text \<open>\<open>sub in s\<close> for strings.\<close>

fun contains :: "string \<Rightarrow> string \<Rightarrow> bool" where
  "contains sub [] = (sub = [])"
| "contains sub (c # cs) = (prefix sub (c # cs) \<or> contains sub cs)"

definition strip :: "string \<Rightarrow> string" where
  "strip s = rev (dropWhile isspace (rev (dropWhile isspace s)))"

text \<open>\<open>sep.join(parts)\<close>.\<close>

fun join :: "string \<Rightarrow> string list \<Rightarrow> string" where
  "join sep [] = []"
| "join sep [p] = p"
| "join sep (p # q # ps) = p @ sep @ join sep (q # ps)"

section \<open>The schema\<close>

text \<open>
  The dictionaries of \<open>main.py\<close>: a table has a \<open>name\<close>, a list of attribute names
  and, in the format sent to the frontend, a list of columns; an absent
  \<open>attributes\<close> or \<open>columns\<close> key is the empty list (\<open>table.get\<close>). A relationship
  carries the four keys the generator and the parser read.
\<close>

record column =
  col_name :: string
  col_type :: string

record table =
  name :: string
  attributes :: "string list"
  columns :: "column list"

record relationship =
  fromTable :: string
  fromColumn :: string
  toTable :: string
  toColumn :: string

record schema =
  tables :: "table list"
  relationships :: "relationship list"

section \<open>The generator: schema to SQL\<close>

text \<open>Lines 579 to 587 of \<open>generate_table_sql\<close>: the type of a column from its name.\<close>

definition data_type :: "string \<Rightarrow> string" where
  "data_type attr =
     (if endswith (lower attr) ''_id'' \<and> \<not> endswith (lower attr) ''name'' then ''INTEGER''
      else if contains ''date'' (lower attr) then ''DATE''
      else if contains ''time'' (lower attr) \<or> contains ''duration'' (lower attr) then ''INTEGER''
      else if list_ex (\<lambda>word. contains word (lower attr)) [''age'', ''price'', ''amount'', ''credits'']
        then ''INTEGER''
      else ''TEXT'')"

text \<open>The test of line 592 without the flag: the name ends with \<open>_id\<close> and not with
  \<open>name\<close>.\<close>

definition is_id :: "string \<Rightarrow> bool" where
  "is_id attr = (endswith (lower attr) ''_id'' \<and> \<not> endswith (lower attr) ''name'')"

text \<open>The position of the first attribute that passes the test of line 592: the
  number of attributes before it, which is the length of the list when there is none.\<close>

definition pk_index :: "string list \<Rightarrow> nat" where
  "pk_index attrs = length (takeWhile (\<lambda>a. \<not> is_id a) attrs)"

text \<open>Lines 589 to 603: the text one iteration appends, given whether it writes the
  primary key and whether it writes the comma.\<close>

definition attr_line :: "string \<Rightarrow> bool \<Rightarrow> bool \<Rightarrow> string" where
  "attr_line attr pk comma =
     ''  '' @ attr @ '' '' @ data_type attr
     @ (if pk then '' PRIMARY KEY'' else [])
     @ (if contains ''email'' (lower attr) then '' UNIQUE'' else [])
     @ (if contains ''name'' (lower attr) \<and> \<not> endswith (lower attr) ''_id'' then '' NOT NULL'' else [])
     @ (if comma then '','' else [])
     @ ''\<newline>''"

text \<open>The loop over \<open>enumerate(attributes)\<close>: \<open>i\<close> is the index, \<open>n\<close> the length of
  the whole list, the state is \<open>(sql, has_primary_key)\<close>. The comma test reads the
  relationships of the whole schema.\<close>

fun attr_loop :: "relationship list \<Rightarrow> nat \<Rightarrow> nat \<Rightarrow> string list \<Rightarrow> string \<times> bool \<Rightarrow> string \<times> bool" where
  "attr_loop rels n i [] st = st"
| "attr_loop rels n i (attr # rest) (sql, has_primary_key) =
     (let is_last = (int i = int n - 1);
          pk = (\<not> has_primary_key \<and> is_id attr)
      in attr_loop rels n (Suc i) rest
           (sql @ attr_line attr pk (\<not> is_last \<or> rels \<noteq> []), has_primary_key \<or> pk))"

text \<open>Lines 607 to 611: one line for each relationship of the table.\<close>

definition fk_line :: "relationship \<Rightarrow> bool \<Rightarrow> string" where
  "fk_line rel comma =
     ''  FOREIGN KEY ('' @ fromColumn rel @ '') REFERENCES '' @ toTable rel @ ''s(''
     @ toColumn rel @ '')'' @ (if comma then '','' else []) @ ''\<newline>''"

fun fk_loop :: "nat \<Rightarrow> nat \<Rightarrow> relationship list \<Rightarrow> string \<Rightarrow> string" where
  "fk_loop n i [] sql = sql"
| "fk_loop n i (rel # rest) sql =
     fk_loop n (Suc i) rest (sql @ fk_line rel (int i < int n - 1))"

text \<open>Lines 570 to 573: the attribute names, taken from the columns when there are no
  attributes.\<close>

definition table_attributes :: "table \<Rightarrow> string list" where
  "table_attributes t =
     (if attributes t = [] \<and> columns t \<noteq> [] then map col_name (columns t) else attributes t)"

definition table_relationships :: "table \<Rightarrow> relationship list \<Rightarrow> relationship list" where
  "table_relationships t rels = filter (\<lambda>rel. fromTable rel = name t) rels"

definition create_header :: "table \<Rightarrow> string" where
  "create_header t = ''CREATE TABLE IF NOT EXISTS '' @ name t @ ''s'' @ '' (\<newline>''"

definition generate_table_sql :: "table \<Rightarrow> table list \<Rightarrow> relationship list \<Rightarrow> string" where
  "generate_table_sql t all_tables rels =
     (let attrs = table_attributes t;
          (sql, has_primary_key) = attr_loop rels (length attrs) 0 attrs (create_header t, False);
          trels = table_relationships t rels
      in fk_loop (length trels) 0 trels sql @ '');'')"

definition generate_sql_from_structured_schema :: "schema \<Rightarrow> string" where
  "generate_sql_from_structured_schema s =
     join ''\<newline>\<newline>''
       (map (\<lambda>t. generate_table_sql t (tables s) (relationships s)) (tables s))"

section \<open>The statement splitter\<close>

text \<open>\<open>s.split(sep)\<close> for a separator of one character: the pieces between the
  separators, one more than there are separators.\<close>

fun split_from :: "char \<Rightarrow> string \<Rightarrow> string \<Rightarrow> string list" where
  "split_from sep piece [] = [piece]"
| "split_from sep piece (c # cs) =
     (if c = sep then piece # split_from sep [] cs else split_from sep (piece @ [c]) cs)"

definition split_char :: "char \<Rightarrow> string \<Rightarrow> string list" where
  "split_char sep s = split_from sep [] s"

text \<open>Line 152 of \<open>execute_sql\<close>:
  \<^verbatim>\<open>[stmt.strip() for stmt in sql.split(';') if stmt.strip()]\<close>.\<close>

definition split_statements :: "string \<Rightarrow> string list" where
  "split_statements sql =
     map strip (filter (\<lambda>stmt. strip stmt \<noteq> []) (split_char CHR '';'' sql))"

text \<open>The nesting depth the text of the specification speaks of: opening minus closing
  parentheses of a text.\<close>

definition paren_depth :: "string \<Rightarrow> int" where
  "paren_depth s = int (length (filter (\<lambda>c. c = CHR ''('') s))
                   - int (length (filter (\<lambda>c. c = CHR '')'') s))"

section \<open>The parser: SQL to schema\<close>

subsection \<open>The regular expressions\<close>

text \<open>
  The three patterns of \<open>parse_sql_to_schema\<close> are sequences of literals, \<open>\s+\<close>,
  \<open>\s*\<close> and \<open>\w+\<close> in which a greedy repetition is always followed by something
  that no character of its class can start, so that the backtracking matcher of \<open>re\<close>
  has one way to match at a given start: every repetition takes all it can. Each
  piece is a function from the text at the current position to the text after the
  piece, \<open>None\<close> when the piece does not match there.
\<close>

text \<open>A literal under \<open>re.IGNORECASE\<close>: characters are compared lower-cased.\<close>

fun match_lit :: "string \<Rightarrow> string \<Rightarrow> string option" where
  "match_lit [] s = Some s"
| "match_lit (p # ps) [] = None"
| "match_lit (p # ps) (c # cs) =
     (if lower_char c = lower_char p then match_lit ps cs else None)"

text \<open>\<open>\s+\<close>, \<open>\s*\<close> and the group \<open>(\w+)\<close>.\<close>

definition spaces1 :: "string \<Rightarrow> string option" where
  "spaces1 s = (if takeWhile isspace s = [] then None else Some (dropWhile isspace s))"

definition spaces0 :: "string \<Rightarrow> string" where
  "spaces0 s = dropWhile isspace s"

definition word1 :: "string \<Rightarrow> (string \<times> string) option" where
  "word1 s = (if takeWhile isword s = [] then None
              else Some (takeWhile isword s, dropWhile isword s))"

text \<open>\<open>(.*?)\);\<close> under \<open>re.DOTALL\<close>: the shortest text that is followed by \<open>);\<close>,
  and the text after that \<open>);\<close>.\<close>

fun until_close :: "string \<Rightarrow> (string \<times> string) option" where
  "until_close [] = None"
| "until_close (c # cs) =
     (if prefix '');'' (c # cs) then Some ([], drop 2 (c # cs))
      else map_option (\<lambda>(body, rest). (c # body, rest)) (until_close cs))"

text \<open>The optional group \<open>(?:IF\s+NOT\s+EXISTS\s+)?\<close>. When the group matches, the
  matcher goes on after it; leaving it out instead would make \<open>(\w+)\<close> take \<open>IF\<close>,
  which white space and \<open>NOT\<close> follow and never the parenthesis.\<close>

definition if_not_exists :: "string \<Rightarrow> string option" where
  "if_not_exists s = do {
     s1 \<leftarrow> match_lit ''IF'' s;
     s2 \<leftarrow> spaces1 s1;
     s3 \<leftarrow> match_lit ''NOT'' s2;
     s4 \<leftarrow> spaces1 s3;
     s5 \<leftarrow> match_lit ''EXISTS'' s4;
     spaces1 s5
   }"

text \<open>Line 1146, one attempt at the start of \<open>s\<close>:
  \<^verbatim>\<open>CREATE\s+TABLE\s+(?:IF\s+NOT\s+EXISTS\s+)?(\w+)\s*\((.*?)\);\<close>.
  The result is the two groups and the text after the match.\<close>

definition create_at :: "string \<Rightarrow> (string \<times> string \<times> string) option" where
  "create_at s = do {
     s1 \<leftarrow> match_lit ''CREATE'' s;
     s2 \<leftarrow> spaces1 s1;
     s3 \<leftarrow> match_lit ''TABLE'' s2;
     s4 \<leftarrow> spaces1 s3;
     (table_name, s5) \<leftarrow> word1 (case if_not_exists s4 of Some r \<Rightarrow> r | None \<Rightarrow> s4);
     s6 \<leftarrow> match_lit ''('' (spaces0 s5);
     (body, rest) \<leftarrow> until_close s6;
     Some (table_name, body, rest)
   }"

text \<open>\<open>re.findall\<close>: the matches from left to right, none overlapping another. The
  first argument counts the characters still inside the last match.\<close>

fun findall_create :: "nat \<Rightarrow> string \<Rightarrow> (string \<times> string) list" where
  "findall_create skip [] = []"
| "findall_create (Suc skip) (c # cs) = findall_create skip cs"
| "findall_create 0 (c # cs) =
     (case create_at (c # cs) of
        Some (table_name, body, rest) \<Rightarrow>
          (table_name, body) # findall_create (length cs - length rest) cs
      | None \<Rightarrow> findall_create 0 cs)"

text \<open>Line 1181, one attempt at the start of \<open>s\<close>:
  \<^verbatim>\<open>FOREIGN\s+KEY\s*\((\w+)\)\s*REFERENCES\s+(\w+)\s*\((\w+)\)\<close>.\<close>

definition fk_at :: "string \<Rightarrow> (string \<times> string \<times> string) option" where
  "fk_at s = do {
     s1 \<leftarrow> match_lit ''FOREIGN'' s;
     s2 \<leftarrow> spaces1 s1;
     s3 \<leftarrow> match_lit ''KEY'' s2;
     s4 \<leftarrow> match_lit ''('' (spaces0 s3);
     (g1, s5) \<leftarrow> word1 s4;
     s6 \<leftarrow> match_lit '')'' s5;
     s7 \<leftarrow> match_lit ''REFERENCES'' (spaces0 s6);
     s8 \<leftarrow> spaces1 s7;
     (g2, s9) \<leftarrow> word1 s8;
     s10 \<leftarrow> match_lit ''('' (spaces0 s9);
     (g3, s11) \<leftarrow> word1 s10;
     s12 \<leftarrow> match_lit '')'' s11;
     Some (g1, g2, g3)
   }"

text \<open>\<open>re.search\<close>: the first start at which the pattern matches.\<close>

fun fk_search :: "string \<Rightarrow> (string \<times> string \<times> string) option" where
  "fk_search [] = fk_at []"
| "fk_search (c # cs) = (case fk_at (c # cs) of Some g \<Rightarrow> Some g | None \<Rightarrow> fk_search cs)"

text \<open>Line 1192, \<open>re.match\<close> at the start of the line:
  \<^verbatim>\<open>(\w+)\s+(\w+)(?:\s+.*)?\<close>. The optional tail can only add to a match.\<close>

definition col_match :: "string \<Rightarrow> (string \<times> string) option" where
  "col_match line = do {
     (g1, s1) \<leftarrow> word1 line;
     s2 \<leftarrow> spaces1 s1;
     (g2, s3) \<leftarrow> word1 s2;
     Some (g1, g2)
   }"

subsection \<open>\<open>parse_sql_to_schema\<close>\<close>

text \<open>Lines 1155 to 1166: the scan of a table body. The state is \<open>paren_count\<close>,
  \<open>current_line\<close> and \<open>column_definitions\<close>.\<close>

fun scan_columns :: "string \<Rightarrow> int \<Rightarrow> string \<Rightarrow> string list \<Rightarrow> int \<times> string \<times> string list" where
  "scan_columns [] paren_count current_line defs = (paren_count, current_line, defs)"
| "scan_columns (char # rest) paren_count current_line defs =
     (if char = CHR ''('' then scan_columns rest (paren_count + 1) (current_line @ [char]) defs
      else if char = CHR '')'' then scan_columns rest (paren_count - 1) (current_line @ [char]) defs
      else if char = CHR '','' \<and> paren_count = 0 then
        scan_columns rest paren_count []
          (if strip current_line \<noteq> [] then defs @ [strip current_line] else defs)
      else scan_columns rest paren_count (current_line @ [char]) defs)"

text \<open>Lines 1151 to 1169: the column definitions of a table body.\<close>

definition column_definitions :: "string \<Rightarrow> string list" where
  "column_definitions cols =
     (case scan_columns cols 0 [] [] of
        (paren_count, current_line, defs) \<Rightarrow>
          if strip current_line \<noteq> [] then defs @ [strip current_line] else defs)"

text \<open>Lines 1175 to 1200: one definition. The state is \<open>attributes\<close>, \<open>columns_data\<close>
  and the \<open>relationships\<close> of the whole text.\<close>

definition parse_definition ::
  "string \<Rightarrow> string \<Rightarrow> string list \<times> column list \<times> relationship list
     \<Rightarrow> string list \<times> column list \<times> relationship list" where
  "parse_definition table_name line0 st =
     (case st of (attrs, cols, rels) \<Rightarrow>
        let line = strip line0 in
        if line = [] then (attrs, cols, rels)
        else if startswith (upper line) (code_points ''FOREIGN KEY'') then
          (case fk_search line of
             Some (g1, g2, g3) \<Rightarrow>
               (attrs, cols,
                rels @ [\<lparr>fromTable = table_name, fromColumn = g1, toTable = g2, toColumn = g3\<rparr>])
           | None \<Rightarrow> (attrs, cols, rels))
        else
          (case col_match line of
             Some (g1, g2) \<Rightarrow>
               (attrs @ [g1], cols @ [\<lparr>col_name = g1, col_type = g2\<rparr>], rels)
           | None \<Rightarrow> (attrs, cols, rels)))"

fun parse_definitions ::
  "string \<Rightarrow> string list \<Rightarrow> string list \<times> column list \<times> relationship list
     \<Rightarrow> string list \<times> column list \<times> relationship list" where
  "parse_definitions table_name [] st = st"
| "parse_definitions table_name (line # rest) st =
     parse_definitions table_name rest (parse_definition table_name line st)"

text \<open>Lines 1149 to 1206: the loop over the matches. The state is \<open>tables\<close> and
  \<open>relationships\<close>.\<close>

fun parse_matches ::
  "(string \<times> string) list \<Rightarrow> table list \<times> relationship list \<Rightarrow> table list \<times> relationship list" where
  "parse_matches [] st = st"
| "parse_matches ((table_name, cols) # rest) (tabs, rels) =
     (case parse_definitions table_name (column_definitions cols) ([], [], rels) of
        (attrs, columns_data, rels') \<Rightarrow>
          parse_matches rest
            (tabs @ [\<lparr>name = table_name, attributes = attrs, columns = columns_data\<rparr>], rels'))"

text \<open>Lines 1139 to 1214. No operation of the body raises on a \<open>str\<close>, so the
  \<open>except\<close> branch, which returns the empty schema, is never taken.\<close>

definition parse_sql_to_schema :: "string \<Rightarrow> schema" where
  "parse_sql_to_schema sql =
     (case parse_matches (findall_create 0 sql) ([], []) of
        (tabs, rels) \<Rightarrow> \<lparr>tables = tabs, relationships = rels\<rparr>)"

text \<open>What the parser has collected for a table: the attribute names are the names of the
  columns, and no column has an empty name or type.\<close>

definition columns_named :: "string list \<Rightarrow> column list \<Rightarrow> bool" where
  "columns_named attrs cols =
     (attrs = map col_name cols \<and> list_all (\<lambda>c. col_name c \<noteq> [] \<and> col_type c \<noteq> []) cols)"

section \<open>Notions used in the statements\<close>

text \<open>A name that the patterns of the parser read as one word: not empty, and made of
  characters of the class \<open>\w\<close>.\<close>

definition word_name :: "string \<Rightarrow> bool" where
  "word_name x = (x \<noteq> [] \<and> list_all isword x)"

text \<open>A schema whose attribute and column names are such words and whose table names are
  made of word characters.\<close>

definition word_schema :: "schema \<Rightarrow> bool" where
  "word_schema s =
     (list_all (\<lambda>t. list_all isword (name t) \<and> list_all word_name (table_attributes t)) (tables s)
      \<and> list_all (\<lambda>r. word_name (fromColumn r) \<and> list_all isword (toTable r)
                       \<and> word_name (toColumn r)) (relationships s))"

text \<open>The text of an attribute line and of a foreign-key line between the indentation
  and the comma.\<close>

definition attr_core :: "string \<Rightarrow> bool \<Rightarrow> string" where
  "attr_core attr pk =
     attr @ '' '' @ data_type attr
     @ (if pk then '' PRIMARY KEY'' else [])
     @ (if contains ''email'' (lower attr) then '' UNIQUE'' else [])
     @ (if contains ''name'' (lower attr) \<and> \<not> endswith (lower attr) ''_id'' then '' NOT NULL'' else [])"

definition fk_core :: "relationship \<Rightarrow> string" where
  "fk_core rel =
     ''FOREIGN KEY ('' @ fromColumn rel @ '') REFERENCES '' @ toTable rel @ ''s(''
     @ toColumn rel @ '')''"

text \<open>A definition without comma and with balanced parentheses that neither starts nor
  ends with white space.\<close>

definition plain_def :: "string \<Rightarrow> bool" where
  "plain_def core =
     (core \<noteq> [] \<and> \<not> isspace (hd core) \<and> \<not> isspace (last core)
      \<and> CHR '','' \<notin> set core \<and> paren_depth core = 0)"

text \<open>The number of positions of a text at which a given text starts: how often the
  words \<open>PRIMARY KEY\<close> are written in a statement.\<close>

fun occurrences :: "string \<Rightarrow> string \<Rightarrow> nat" where
  "occurrences sub [] = (if sub = [] then 1 else 0)"
| "occurrences sub (c # cs) = (if prefix sub (c # cs) then 1 else 0) + occurrences sub cs"

section \<open>Properties of the generator\<close>

lemma id_suffix_not_name: "endswith l ''_id'' \<Longrightarrow> \<not> endswith l ''name''"
  by (auto simp: endswith_def suffix_def append_eq_append_conv2 Cons_eq_append_conv append_eq_Cons_conv)

text \<open>
  C2, as the code has it. The generator (line 580) and the conversion of attributes to
  columns (line 530) test the suffix \<open>_id\<close> only: every attribute whose lower-cased
  name ends with \<open>_id\<close> gets the type \<open>INTEGER\<close>; a name ending with \<open>_id\<close> never
  ends with \<open>name\<close>.
\<close>

theorem data_type_id_suffix:
  "endswith (lower attr) ''_id'' \<Longrightarrow> data_type attr = ''INTEGER''"
  by (simp add: data_type_def id_suffix_not_name)

theorem data_type_id_suffix_witness:
  "endswith (lower ''Student_ID'') ''_id'' \<and> data_type ''Student_ID'' = ''INTEGER''"
proof -
  have h: "endswith (lower ''Student_ID'') ''_id''" by code_simp
  show ?thesis using h data_type_id_suffix [OF h] by simp
qed

text \<open>
  C2, as the specification states it, fails: \<open>Sessionid\<close> ends with \<open>id\<close> and not
  with \<open>name\<close>, and its type is \<open>TEXT\<close>.
\<close>

theorem data_type_sessionid_counterexample:
  "endswith (lower ''Sessionid'') ''id'' \<and> \<not> endswith (lower ''Sessionid'') ''name''
   \<and> data_type ''Sessionid'' = ''TEXT''"
  by code_simp

lemma attr_loop_unfold:
  "attr_loop rels n i attrs (sql, hp) =
     (sql @ concat (map (\<lambda>j. attr_line (attrs ! j) (\<not> hp \<and> j = pk_index attrs)
                               (int (i + j) \<noteq> int n - 1 \<or> rels \<noteq> [])) [0..<length attrs]),
      hp \<or> list_ex is_id attrs)"
proof (induction attrs arbitrary: i sql hp)
  case Nil
  then show ?case by simp
next
  case (Cons a attrs)
  show ?case
    by (cases hp; cases "is_id a")
      (simp_all add: Cons.IH Let_def map_upt_Suc pk_index_def del: upt_Suc)
qed

lemma fk_loop_unfold:
  "fk_loop n i rels sql =
     sql @ concat (map (\<lambda>j. fk_line (rels ! j) (int (i + j) < int n - 1)) [0..<length rels])"
proof (induction rels arbitrary: i sql)
  case Nil
  then show ?case by simp
next
  case (Cons a rels)
  show ?case
    by (simp add: Cons.IH map_upt_Suc del: upt_Suc)
qed

lemma generate_table_sql_unfold:
  "generate_table_sql t all_tables rels =
     create_header t
     @ concat (map (\<lambda>j. attr_line (table_attributes t ! j) (j = pk_index (table_attributes t))
                           (int j \<noteq> int (length (table_attributes t)) - 1 \<or> rels \<noteq> []))
                 [0..<length (table_attributes t)])
     @ concat (map (\<lambda>j. fk_line (table_relationships t rels ! j)
                           (int j < int (length (table_relationships t rels)) - 1))
                 [0..<length (table_relationships t rels)])
     @ '');''"
  by (simp add: generate_table_sql_def Let_def attr_loop_unfold fk_loop_unfold)

lemma pk_index_first:
  "(pk_index attrs < length attrs \<longrightarrow> is_id (attrs ! pk_index attrs))
   \<and> (\<forall>j < pk_index attrs. \<not> is_id (attrs ! j))"
proof (intro conjI impI allI)
  assume "pk_index attrs < length attrs"
  then show "is_id (attrs ! pk_index attrs)"
    unfolding pk_index_def using nth_length_takeWhile [of "\<lambda>a. \<not> is_id a" attrs] by simp
next
  fix j assume "j < pk_index attrs"
  then show "\<not> is_id (attrs ! j)"
    unfolding pk_index_def
    using nth_mem [of j "takeWhile (\<lambda>a. \<not> is_id a) attrs"] set_takeWhileD [of _ "\<lambda>a. \<not> is_id a" attrs]
    by (simp add: takeWhile_nth)
qed

lemma pk_index_none: "\<not> list_ex is_id attrs \<Longrightarrow> pk_index attrs = length attrs"
  by (induction attrs) (simp_all add: pk_index_def)

text \<open>
  C7. Scenario A of the specification: the schema with the one entity \<open>Student\<close> and no
  relationships.
\<close>

theorem scenario_student:
  "generate_sql_from_structured_schema
     \<lparr>tables = [\<lparr>name = ''Student'', attributes = [''Student_ID'', ''Name'', ''Email''],
                 columns = []\<rparr>],
      relationships = []\<rparr>
   = ''CREATE TABLE IF NOT EXISTS Students (\<newline>  Student_ID INTEGER PRIMARY KEY,\<newline>  Name TEXT NOT NULL,\<newline>  Email TEXT UNIQUE\<newline>);''"
  by code_simp

text \<open>
  C3. The comma after the last attribute is written when the schema has any
  relationship at all (line 601 reads \<open>relationships\<close>, not the relationships of the
  table computed on line 606): with a relationship that starts at another table, the
  body of \<open>Student\<close> ends with a comma before the closing parenthesis.
\<close>

theorem trailing_comma_other_table:
  "table_relationships \<lparr>name = ''Student'', attributes = [''Student_ID'', ''Name''], columns = []\<rparr>
     [\<lparr>fromTable = ''Borrowing'', fromColumn = ''Student_ID'', toTable = ''Student'',
       toColumn = ''Student_ID''\<rparr>] = []
   \<and> generate_table_sql
       \<lparr>name = ''Student'', attributes = [''Student_ID'', ''Name''], columns = []\<rparr> []
       [\<lparr>fromTable = ''Borrowing'', fromColumn = ''Student_ID'', toTable = ''Student'',
         toColumn = ''Student_ID''\<rparr>]
     = ''CREATE TABLE IF NOT EXISTS Students (\<newline>  Student_ID INTEGER PRIMARY KEY,\<newline>  Name TEXT NOT NULL,\<newline>);''"
  by code_simp

section \<open>Properties of the statement splitter\<close>

lemma dropWhile_space_prefix: "list_all P w \<Longrightarrow> dropWhile P (w @ s) = dropWhile P s"
  by (induction w) simp_all

lemma dropWhile_all: "list_all P w \<Longrightarrow> dropWhile P w = []"
  by (induction w) simp_all

lemma list_all_rev: "list_all P (rev w) = list_all P w"
  by (simp add: list_all_iff)

lemma strip_space_prefix: "list_all isspace w \<Longrightarrow> strip (w @ s) = strip s"
  by (simp add: strip_def dropWhile_space_prefix)

lemma strip_space_suffix: "list_all isspace w \<Longrightarrow> strip (s @ w) = strip s"
proof (cases "list_all isspace s")
  case True
  assume "list_all isspace w"
  with True have "list_all isspace (s @ w)" by simp
  then have "dropWhile isspace (s @ w) = []" by (rule dropWhile_all)
  moreover have "dropWhile isspace s = []" using True by (rule dropWhile_all)
  ultimately show ?thesis by (simp only: strip_def)
next
  case False
  assume w: "list_all isspace w"
  from False have "dropWhile isspace (s @ w) = dropWhile isspace s @ w"
    by (auto simp: list_all_iff dropWhile_append1)
  moreover have "dropWhile isspace (rev w @ rev (dropWhile isspace s)) = dropWhile isspace (rev (dropWhile isspace s))"
    using w by (simp only: dropWhile_space_prefix list_all_rev)
  ultimately show ?thesis by (simp add: strip_def)
qed

lemma strip_fixed:
  assumes "t \<noteq> []" "\<not> isspace (hd t)" "\<not> isspace (last t)"
  shows "strip t = t"
proof -
  have "dropWhile isspace t = t" using assms by (simp add: dropWhile_eq_self_iff)
  moreover have "dropWhile isspace (rev t) = rev t"
    using assms by (simp add: dropWhile_eq_self_iff hd_rev)
  ultimately show ?thesis by (simp add: strip_def)
qed

lemma last_dropWhile_nonempty: "dropWhile P xs \<noteq> [] \<Longrightarrow> last (dropWhile P xs) = last xs"
  by (metis takeWhile_dropWhile_id last_appendR)

lemma strip_ends:
  "strip s = [] \<or> (\<not> isspace (hd (strip s)) \<and> \<not> isspace (last (strip s)))"
proof (cases "strip s = []")
  case True then show ?thesis by simp
next
  case False
  define d where "d = dropWhile isspace s"
  define e where "e = dropWhile isspace (rev d)"
  have s: "strip s = rev e" by (simp add: strip_def d_def e_def)
  with False have e: "e \<noteq> []" by simp
  then have "\<not> isspace (hd e)" unfolding e_def by (rule hd_dropWhile)
  then have l: "\<not> isspace (last (strip s))" using e s by (simp add: last_rev)
  have "last e = last (rev d)" using e unfolding e_def by (rule last_dropWhile_nonempty)
  moreover have d: "d \<noteq> []" using e e_def by auto
  ultimately have "last e = hd d" by (simp add: last_rev)
  moreover have "\<not> isspace (hd d)" using d unfolding d_def by (rule hd_dropWhile)
  ultimately have "\<not> isspace (hd (strip s))" using e s by (simp add: hd_rev)
  with l show ?thesis by simp
qed

lemma strip_idem: "strip (strip s) = strip s"
proof (cases "strip s = []")
  case True
  have "strip [] = []" by (simp add: strip_def)
  with True show ?thesis by simp
next
  case False
  with strip_ends [of s] have "\<not> isspace (hd (strip s))" and "\<not> isspace (last (strip s))"
    by simp_all
  with False show ?thesis by (rule strip_fixed)
qed

lemma set_strip: "set (strip s) \<subseteq> set s"
  by (metis strip_def set_rev set_dropWhileD subsetI)

lemma split_from_append:
  "split_from sep piece (a @ sep # b) = split_from sep piece a @ split_from sep [] b"
  by (induction a arbitrary: piece) simp_all

lemma split_from_no_sep: "sep \<notin> set s \<Longrightarrow> split_from sep piece s = [piece @ s]"
proof (induction s arbitrary: piece)
  case Nil
  then show ?case by simp
next
  case (Cons c s)
  then have "c \<noteq> sep" and "sep \<notin> set s" by auto
  then show ?case using Cons.IH [of "piece @ [c]"] by simp
qed

lemma split_from_piece:
  "split_from sep piece s = (piece @ hd (split_from sep [] s)) # tl (split_from sep [] s)"
proof (induction s arbitrary: piece)
  case Nil then show ?case by simp
next
  case (Cons c s)
  show ?case
  proof (cases "c = sep")
    case True then show ?thesis by simp
  next
    case False
    then show ?thesis using Cons.IH [of "piece @ [c]"] Cons.IH [of "[c]"] by simp
  qed
qed

lemma split_from_nonempty: "split_from sep piece s \<noteq> []"
  by (induction s arbitrary: piece) simp_all

lemma split_from_pieces: "p \<in> set (split_from sep piece s) \<Longrightarrow> sep \<notin> set piece \<Longrightarrow> sep \<notin> set p"
proof (induction s arbitrary: piece)
  case Nil
  then show ?case by simp
next
  case (Cons c s)
  show ?case
  proof (cases "c = sep")
    case True
    with Cons.prems have "p = piece \<or> p \<in> set (split_from sep [] s)" by simp
    then show ?thesis using Cons.IH [of "[]"] Cons.prems(2) by auto
  next
    case False
    with Cons.prems have "p \<in> set (split_from sep (piece @ [c]) s)" by simp
    then show ?thesis using Cons.IH [of "piece @ [c]"] Cons.prems(2) False by auto
  qed
qed

lemma split_from_space_prefix:
  "sep \<notin> set w \<Longrightarrow> split_from sep piece (w @ s) = split_from sep (piece @ w) s"
proof (induction w arbitrary: piece)
  case Nil
  then show ?case by simp
next
  case (Cons c w)
  then have "c \<noteq> sep" and "sep \<notin> set w" by auto
  then show ?case using Cons.IH [of "piece @ [c]"] by simp
qed

lemma split_from_space_suffix:
  "sep \<notin> set w \<Longrightarrow>
   split_from sep piece (s @ w) =
     butlast (split_from sep piece s) @ [last (split_from sep piece s) @ w]"
proof (induction s arbitrary: piece)
  case Nil then show ?case by (simp add: split_from_no_sep)
next
  case (Cons c s)
  then show ?case by (simp add: split_from_nonempty)
qed

lemma semicolon_not_space: "\<not> isspace CHR '';''"
  by (simp add: isspace_def)

lemma space_no_semicolon: "list_all isspace w \<Longrightarrow> CHR '';'' \<notin> set w"
  using semicolon_not_space by (auto simp: list_all_iff)

lemma statements_of_pieces_cong:
  "map strip ps = map strip qs \<Longrightarrow>
   map strip (filter (\<lambda>stmt. strip stmt \<noteq> []) ps) = map strip (filter (\<lambda>stmt. strip stmt \<noteq> []) qs)"
proof (induction ps arbitrary: qs)
  case Nil then show ?case by simp
next
  case (Cons p ps)
  then obtain q qs' where "qs = q # qs'" by (cases qs) auto
  with Cons show ?case by auto
qed

lemma statements_semicolon:
  "split_statements (a @ '';'' @ b) = split_statements a @ split_statements b"
  by (simp add: split_statements_def split_char_def split_from_append)

lemma statements_no_semicolon:
  "CHR '';'' \<notin> set sql \<Longrightarrow> split_statements sql = (if strip sql = [] then [] else [strip sql])"
  by (simp add: split_statements_def split_char_def split_from_no_sep)

lemma statements_stripped:
  "s \<in> set (split_statements sql) \<Longrightarrow> s \<noteq> [] \<and> strip s = s \<and> CHR '';'' \<notin> set s"
  using set_strip split_from_pieces [of _ "CHR '';''" "[]" sql]
  by (auto simp: split_statements_def split_char_def strip_idem)

lemma statements_space_prefix:
  assumes "list_all isspace w"
  shows "split_statements (w @ sql) = split_statements sql"
proof -
  let ?X = "split_from CHR '';'' [] sql"
  have "split_from CHR '';'' [] (w @ sql) = (w @ hd ?X) # tl ?X"
    using split_from_space_prefix [OF space_no_semicolon [OF assms], of "[]" sql]
      split_from_piece [of "CHR '';''" w sql] by simp
  moreover have "?X = hd ?X # tl ?X" by (simp add: split_from_nonempty)
  ultimately have "map strip (split_from CHR '';'' [] (w @ sql)) = map strip ?X"
    using strip_space_prefix [OF assms, of "hd ?X"] by (metis list.simps(9))
  then show ?thesis
    unfolding split_statements_def split_char_def by (rule statements_of_pieces_cong)
qed

lemma statements_space_suffix:
  assumes "list_all isspace w"
  shows "split_statements (sql @ w) = split_statements sql"
proof -
  let ?X = "split_from CHR '';'' [] sql"
  have "split_from CHR '';'' [] (sql @ w) = butlast ?X @ [last ?X @ w]"
    using split_from_space_suffix [OF space_no_semicolon [OF assms]] by simp
  moreover have "?X = butlast ?X @ [last ?X]" by (simp add: split_from_nonempty)
  ultimately have "map strip (split_from CHR '';'' [] (sql @ w)) = map strip ?X"
    using strip_space_suffix [OF assms, of "last ?X"]
    by (metis (no_types, lifting) list.simps(8,9) map_append)
  then show ?thesis
    unfolding split_statements_def split_char_def by (rule statements_of_pieces_cong)
qed


text \<open>
  C9, as the code has it. The splitter cuts the text at every semicolon: the
  statements of \<open>a;b\<close> are those of \<open>a\<close> followed by those of \<open>b\<close>, and a text
  without semicolon is one statement, or none when it is blank. Every statement is
  non-empty, trimmed and free of semicolons. White space around the text or after a
  semicolon changes nothing.
\<close>

theorem split_statements_every_semicolon:
  "split_statements (a @ '';'' @ b) = split_statements a @ split_statements b
   \<and> (CHR '';'' \<notin> set sql \<longrightarrow> split_statements sql = (if strip sql = [] then [] else [strip sql]))
   \<and> (\<forall>s \<in> set (split_statements sql). s \<noteq> [] \<and> strip s = s \<and> CHR '';'' \<notin> set s)
   \<and> (list_all isspace w1 \<and> list_all isspace w2 \<longrightarrow>
        split_statements (w1 @ sql @ w2) = split_statements sql
        \<and> split_statements (a @ '';'' @ w1 @ b) = split_statements (a @ '';'' @ b))"
proof -
  have "split_statements (w1 @ sql @ w2) = split_statements sql"
    if "list_all isspace w1" "list_all isspace w2"
    using that statements_space_prefix [of w1 "sql @ w2"] statements_space_suffix [of w2 sql]
    by simp
  moreover have "split_statements (a @ '';'' @ w1 @ b) = split_statements (a @ '';'' @ b)"
    if "list_all isspace w1"
    using that statements_semicolon [of a "w1 @ b"] statements_semicolon [of a b]
      statements_space_prefix [of w1 b] by simp
  ultimately show ?thesis
    using statements_semicolon [of a b] statements_no_semicolon [of sql] statements_stripped [of _ sql]
    by blast
qed


theorem split_statements_every_semicolon_witness:
  "CHR '';'' \<notin> set ''  SELECT 1 '' \<and> list_all isspace ''\<newline> '' \<and> list_all isspace '' \<newline>\<newline>''
   \<and> split_statements (''a'' @ '';'' @ ''b'') = split_statements ''a'' @ split_statements ''b''
   \<and> split_statements ''  SELECT 1 ''
       = (if strip ''  SELECT 1 '' = [] then [] else [strip ''  SELECT 1 ''])
   \<and> split_statements (''\<newline> '' @ ''  SELECT 1 '' @ '' \<newline>\<newline>'') = split_statements ''  SELECT 1 ''
   \<and> split_statements (''a'' @ '';'' @ ''\<newline> '' @ ''b'') = split_statements (''a'' @ '';'' @ ''b'')"
proof -
  have h1: "CHR '';'' \<notin> set ''  SELECT 1 ''" by code_simp
  have h2: "list_all isspace ''\<newline> ''" by code_simp
  have h3: "list_all isspace '' \<newline>\<newline>''" by code_simp
  show ?thesis
    using h1 h2 h3 split_statements_every_semicolon
      [of "''a''" "''b''" "''  SELECT 1 ''" "''\<newline> ''" "'' \<newline>\<newline>''"]
    by blast
qed

text \<open>
  C9, as the specification states it, fails: the semicolon of this text lies inside
  three open parentheses, and the splitter cuts the text there.
\<close>

theorem split_statements_nested_counterexample:
  "paren_depth ''CREATE TABLE t (c TEXT CHECK (c IN (1'' = 3
   \<and> split_statements ''CREATE TABLE t (c TEXT CHECK (c IN (1;2)));''
       = [''CREATE TABLE t (c TEXT CHECK (c IN (1'', ''2)))'']"
  by code_simp

section \<open>Properties of the parser\<close>

subsection \<open>Column definitions\<close>

lemma paren_depth_Nil: "paren_depth [] = 0"
  by (simp add: paren_depth_def)

lemma paren_depth_Cons:
  "paren_depth (c # s) =
     (if c = CHR ''('' then 1 else if c = CHR '')'' then - 1 else 0) + paren_depth s"
  by (simp add: paren_depth_def)

lemma paren_depth_append: "paren_depth (a @ b) = paren_depth a + paren_depth b"
  by (simp add: paren_depth_def)

lemma scan_columns_defs:
  "scan_columns s pc cur (d0 @ defs) =
     (case scan_columns s pc cur defs of (p, c, d) \<Rightarrow> (p, c, d0 @ d))"
  by (induction s arbitrary: pc cur defs) simp_all

lemma scan_columns_append:
  "scan_columns (a @ b) pc cur defs =
     (case scan_columns a pc cur defs of (p, c, d) \<Rightarrow> scan_columns b p c d)"
  by (induction a arbitrary: pc cur defs) simp_all

lemma scan_columns_depth:
  "fst (scan_columns s pc cur defs) = pc + paren_depth s"
  by (induction s arbitrary: pc cur defs) (simp_all add: paren_depth_Nil paren_depth_Cons)

lemma scan_columns_nested:
  "(\<forall>i < length s. s ! i = CHR '','' \<longrightarrow> pc + paren_depth (take i s) \<noteq> 0) \<Longrightarrow>
   scan_columns s pc cur defs = (pc + paren_depth s, cur @ s, defs)"
proof (induction s arbitrary: pc cur)
  case Nil
  then show ?case by (simp add: paren_depth_Nil)
next
  case (Cons c s)
  have here: "c = CHR '','' \<longrightarrow> pc \<noteq> 0"
    using Cons.prems [rule_format, of 0] by (simp add: paren_depth_Nil)
  have later: "\<forall>i < length s. s ! i = CHR '','' \<longrightarrow>
      (pc + (if c = CHR ''('' then 1 else if c = CHR '')'' then - 1 else 0)) + paren_depth (take i s) \<noteq> 0"
  proof (intro allI impI)
    fix i assume "i < length s" "s ! i = CHR '',''"
    then show "(pc + (if c = CHR ''('' then 1 else if c = CHR '')'' then - 1 else 0))
        + paren_depth (take i s) \<noteq> 0"
      using Cons.prems [rule_format, of "Suc i"] by (simp add: paren_depth_Cons)
  qed
  show ?case
    using here Cons.IH [OF later] by (auto simp: paren_depth_Cons)
qed

lemma column_definitions_comma:
  assumes "paren_depth a = 0"
  shows "column_definitions (a @ '','' @ b) = column_definitions a @ column_definitions b"
proof -
  obtain p c d where a: "scan_columns a 0 [] [] = (p, c, d)" by (cases "scan_columns a 0 [] []")
  have "p = 0" using scan_columns_depth [of a 0 "[]" "[]"] a assms by simp
  obtain p' c' d' where b: "scan_columns b 0 [] [] = (p', c', d')"
    by (cases "scan_columns b 0 [] []")
  let ?d = "if strip c \<noteq> [] then d @ [strip c] else d"
  have "scan_columns (a @ '','' @ b) 0 [] [] = scan_columns b 0 [] ?d"
    using a \<open>p = 0\<close> by (simp add: scan_columns_append)
  also have "\<dots> = (p', c', ?d @ d')"
    using scan_columns_defs [of b 0 "[]" ?d "[]"] b by simp
  finally show ?thesis using a b by (simp add: column_definitions_def)
qed

lemma column_definitions_nested:
  assumes "\<forall>i < length body. body ! i = CHR '','' \<longrightarrow> paren_depth (take i body) \<noteq> 0"
  shows "column_definitions body = (if strip body = [] then [] else [strip body])"
  using scan_columns_nested [of body 0 "[]" "[]"] assms by (simp add: column_definitions_def)

text \<open>
  C5. The scanner cuts a table body at a comma exactly when the parentheses before it
  are balanced: a body with such a comma yields the definitions of the part before it
  followed by those of the part after it, and a body in which every comma lies at a
  depth other than zero is one definition (none when it is blank), commas included.
\<close>

theorem column_definitions_top_level:
  "(paren_depth a = 0 \<longrightarrow>
      column_definitions (a @ '','' @ b) = column_definitions a @ column_definitions b)
   \<and> ((\<forall>i < length body. body ! i = CHR '','' \<longrightarrow> paren_depth (take i body) \<noteq> 0) \<longrightarrow>
      column_definitions body = (if strip body = [] then [] else [strip body]))"
  using column_definitions_comma [of a b] column_definitions_nested [of body] by blast

theorem column_definitions_top_level_witness:
  "paren_depth ''Id INTEGER'' = 0
   \<and> column_definitions (''Id INTEGER'' @ '','' @ '' Price DECIMAL(10,2) NOT NULL'')
       = column_definitions ''Id INTEGER'' @ column_definitions '' Price DECIMAL(10,2) NOT NULL''
   \<and> column_definitions ''Price DECIMAL(10,2) NOT NULL'' = [''Price DECIMAL(10,2) NOT NULL'']"
proof -
  let ?body = "''Price DECIMAL(10,2) NOT NULL''"
  have h1: "paren_depth ''Id INTEGER'' = 0" by code_simp
  have h2: "\<forall>i < length ?body. ?body ! i = CHR '','' \<longrightarrow> paren_depth (take i ?body) \<noteq> 0"
  proof (intro allI impI)
    fix i assume "i < length ?body" and c: "?body ! i = CHR '',''"
    then have "i \<in> set [0..<28]" by simp
    then have "i = 16" using c by (simp add: upt_conv_Cons) (elim disjE; simp)
    then show "paren_depth (take i ?body) \<noteq> 0" by (simp add: paren_depth_def)
  qed
  have h3: "strip ?body = ?body" by code_simp
  have "column_definitions ?body = [?body]"
    using h2 h3 column_definitions_top_level [of "[]" "[]" ?body] by simp
  then show ?thesis
    using h1 column_definitions_top_level [of "''Id INTEGER''" "'' Price DECIMAL(10,2) NOT NULL''" "[]"]
    by blast
qed

subsection \<open>Columns\<close>

lemma word_not_space: "isword c \<Longrightarrow> \<not> isspace c"
  by (auto simp: isword_def isspace_def Let_def)

lemma lower_append: "lower (a @ b) = lower a @ lower b"
  by (simp add: lower_def)

lemma word1_Some:
  "word1 s = Some (w, r) \<Longrightarrow>
     s = w @ r \<and> w \<noteq> [] \<and> list_all isword w \<and> (r = [] \<or> \<not> isword (hd r))"
  using hd_dropWhile [of isword s]
  by (auto simp: word1_def list_all_iff split: if_splits dest: set_takeWhileD)

lemma spaces1_Some:
  "spaces1 s = Some r \<Longrightarrow>
     s = takeWhile isspace s @ r \<and> takeWhile isspace s \<noteq> []
     \<and> list_all isspace (takeWhile isspace s) \<and> (r = [] \<or> \<not> isspace (hd r))"
  using hd_dropWhile [of isspace s]
  by (auto simp: spaces1_def list_all_iff split: if_splits dest: set_takeWhileD)

lemma match_lit_Some:
  "match_lit p s = Some r \<Longrightarrow> \<exists>m. s = m @ r \<and> lower m = lower p"
proof (induction p s rule: match_lit.induct)
  case (1 s)
  then show ?case by (simp add: lower_def)
next
  case (2 p ps)
  then show ?case by simp
next
  case (3 p ps c cs)
  from "3.prems" have eq: "lower_char c = lower_char p" and rest: "match_lit ps cs = Some r"
    by (simp_all split: if_splits)
  from "3.IH" [OF eq rest] obtain m where "cs = m @ r" "lower m = lower ps" by blast
  then have "c # cs = (c # m) @ r \<and> lower (c # m) = lower (p # ps)"
    using eq by (simp add: lower_def)
  then show ?case by blast
qed

lemma col_match_Some:
  assumes "col_match line = Some (n, t)"
  shows "n \<noteq> [] \<and> t \<noteq> [] \<and> list_all isword n \<and> list_all isword t
         \<and> (\<exists>ws rest. line = n @ ws @ t @ rest \<and> ws \<noteq> [] \<and> list_all isspace ws
              \<and> (rest = [] \<or> \<not> isword (hd rest)))"
proof -
  from assms obtain s1 s2 s3 where
    a: "word1 line = Some (n, s1)" and b: "spaces1 s1 = Some s2" and c: "word1 s2 = Some (t, s3)"
    by (auto simp: col_match_def split: Option.bind_splits)
  from word1_Some [OF a] word1_Some [OF c] spaces1_Some [OF b]
  have "line = n @ takeWhile isspace s1 @ t @ s3" by simp
  then show ?thesis
    using word1_Some [OF a] word1_Some [OF c] spaces1_Some [OF b] by blast
qed

lemma col_match_no_space:
  assumes "\<not> list_ex isspace line"
  shows "col_match line = None"
proof (cases "word1 line")
  case None
  then show ?thesis by (simp add: col_match_def)
next
  case (Some a)
  then obtain w r where wr: "word1 line = Some (w, r)" by (cases a) simp
  from word1_Some [OF wr] assms have "\<forall>c \<in> set r. \<not> isspace c"
    by (auto simp: list_ex_iff)
  then have "takeWhile isspace r = []" by (cases r) simp_all
  then have "spaces1 r = None" by (simp add: spaces1_def)
  with wr show ?thesis by (simp add: col_match_def)
qed

lemma upper_char_space: "32 \<in> set (upper_char c) \<Longrightarrow> isspace c"
  by (auto simp: upper_char_def isspace_def Let_def split: if_splits)

lemma upper_space: "32 \<in> set (upper s) \<Longrightarrow> list_ex isspace s"
  by (auto simp: upper_def list_ex_iff dest: upper_char_space)

lemma code_points_foreign_key:
  "code_points ''FOREIGN KEY'' = [70, 79, 82, 69, 73, 71, 78, 32, 75, 69, 89]"
  by (simp add: code_points_def)

lemma startswith_foreign_key_space:
  assumes "startswith (upper s) (code_points ''FOREIGN KEY'')"
  shows "list_ex isspace s"
proof -
  from assms have "set (code_points ''FOREIGN KEY'') \<subseteq> set (upper s)"
    by (auto simp: startswith_def prefix_def)
  then have "32 \<in> set (upper s)" by (auto simp: code_points_foreign_key)
  then show ?thesis by (rule upper_space)
qed

lemma strip_no_space: "\<not> list_ex isspace s \<Longrightarrow> strip s = s"
proof -
  assume a: "\<not> list_ex isspace s"
  then have "dropWhile isspace s = s" by (cases s) (simp_all add: list_ex_iff)
  moreover have "dropWhile isspace (rev s) = rev s"
    using a by (cases "rev s") (auto simp: list_ex_iff dest: arg_cong [where f = set])
  ultimately show ?thesis by (simp add: strip_def)
qed

lemma parse_definition_no_space:
  assumes "\<not> list_ex isspace line"
  shows "parse_definition table_name line st = st"
proof -
  have s: "strip line = line" using assms by (rule strip_no_space)
  have "\<not> startswith (upper line) (code_points ''FOREIGN KEY'')"
    using assms startswith_foreign_key_space by blast
  then show ?thesis
    using s col_match_no_space [OF assms]
    by (cases st) (simp add: parse_definition_def Let_def)
qed

lemma parse_definition_named:
  assumes "columns_named attrs cols"
    and "parse_definition table_name line (attrs, cols, rels) = (attrs', cols', rels')"
  shows "columns_named attrs' cols'"
proof -
  have "columns_named (attrs @ [n]) (cols @ [\<lparr>col_name = n, col_type = t\<rparr>])"
    if "col_match (strip line) = Some (n, t)" for n t
    using col_match_Some [OF that] assms(1) by (simp add: columns_named_def)
  then show ?thesis
    using assms
    by (auto simp: parse_definition_def Let_def split: if_splits option.splits prod.splits)
qed

lemma parse_definitions_named:
  "columns_named attrs cols \<Longrightarrow>
   parse_definitions table_name defs (attrs, cols, rels) = (attrs', cols', rels') \<Longrightarrow>
   columns_named attrs' cols'"
proof (induction defs arbitrary: attrs cols rels)
  case Nil
  then show ?case by simp
next
  case (Cons line defs)
  obtain a c r where step: "parse_definition table_name line (attrs, cols, rels) = (a, c, r)"
    by (cases "parse_definition table_name line (attrs, cols, rels)")
  have "columns_named a c" using Cons.prems(1) step by (rule parse_definition_named)
  then show ?case using Cons.IH [of a c r] Cons.prems(2) step by simp
qed

lemma parse_matches_named:
  "list_all (\<lambda>t. columns_named (attributes t) (columns t)) tabs \<Longrightarrow>
   list_all (\<lambda>t. columns_named (attributes t) (columns t)) (fst (parse_matches ms (tabs, rels)))"
proof (induction ms arbitrary: tabs rels)
  case Nil
  then show ?case by simp
next
  case (Cons m ms)
  obtain table_name cols where m: "m = (table_name, cols)" by (cases m)
  obtain a c r where d:
    "parse_definitions table_name (column_definitions cols) ([], [], rels) = (a, c, r)"
    by (cases "parse_definitions table_name (column_definitions cols) ([], [], rels)")
  have "columns_named [] []" by (simp add: columns_named_def)
  then have "columns_named a c" using d by (rule parse_definitions_named)
  then have "list_all (\<lambda>t. columns_named (attributes t) (columns t))
      (tabs @ [\<lparr>name = table_name, attributes = a, columns = c\<rparr>])"
    using Cons.prems by simp
  from Cons.IH [OF this, of r] show ?case using m d by simp
qed

lemma parse_sql_to_schema_named:
  "list_all (\<lambda>t. columns_named (attributes t) (columns t)) (tables (parse_sql_to_schema sql))"
proof -
  have "list_all (\<lambda>t. columns_named (attributes t) (columns t))
      (fst (parse_matches (findall_create 0 sql) ([], [])))"
    by (rule parse_matches_named) simp
  then show ?thesis
    by (cases "parse_matches (findall_create 0 sql) ([], [])")
      (simp add: parse_sql_to_schema_def)
qed

text \<open>
  C10. A definition without white space, such as a bare column name, changes nothing:
  no attribute is recorded for it. When the column pattern matches, the name and the
  type are non-empty words: the line is the name, white space, the type and a rest
  that does not go on with a word character. In every table the parser returns, the
  attributes are the names of the columns and no column has an empty name or type.
\<close>

theorem single_token_dropped:
  "(\<not> list_ex isspace line \<longrightarrow> parse_definition table_name line st = st)
   \<and> (col_match line = Some (n, t) \<longrightarrow>
        n \<noteq> [] \<and> t \<noteq> [] \<and> list_all isword n \<and> list_all isword t
        \<and> (\<exists>ws rest. line = n @ ws @ t @ rest \<and> ws \<noteq> [] \<and> list_all isspace ws
             \<and> (rest = [] \<or> \<not> isword (hd rest))))
   \<and> list_all (\<lambda>t. attributes t = map col_name (columns t)
                   \<and> list_all (\<lambda>c. col_name c \<noteq> [] \<and> col_type c \<noteq> []) (columns t))
        (tables (parse_sql_to_schema sql))"
  using parse_definition_no_space [of line table_name st] col_match_Some [of line n t]
    parse_sql_to_schema_named [of sql]
  unfolding columns_named_def by blast

theorem single_token_dropped_witness:
  "\<not> list_ex isspace ''Notes''
   \<and> parse_definition ''t'' ''Notes'' ([''Id''], [\<lparr>col_name = ''Id'', col_type = ''INT''\<rparr>], [])
       = ([''Id''], [\<lparr>col_name = ''Id'', col_type = ''INT''\<rparr>], [])
   \<and> col_match ''Price  DECIMAL(10,2)'' = Some (''Price'', ''DECIMAL'')
   \<and> tables (parse_sql_to_schema ''CREATE TABLE t (Id INT, Notes);'')
       = [\<lparr>name = ''t'', attributes = [''Id''], columns = [\<lparr>col_name = ''Id'', col_type = ''INT''\<rparr>]\<rparr>]"
proof -
  have h1: "\<not> list_ex isspace ''Notes''" by code_simp
  have h2: "col_match ''Price  DECIMAL(10,2)'' = Some (''Price'', ''DECIMAL'')" by code_simp
  have h3: "tables (parse_sql_to_schema ''CREATE TABLE t (Id INT, Notes);'')
       = [\<lparr>name = ''t'', attributes = [''Id''], columns = [\<lparr>col_name = ''Id'', col_type = ''INT''\<rparr>]\<rparr>]"
    by code_simp
  show ?thesis
    using h1 h2 h3
      single_token_dropped [of "''Notes''" "''t''"
        "([''Id''], [\<lparr>col_name = ''Id'', col_type = ''INT''\<rparr>], [])"
        "''Price''" "''DECIMAL''" "''CREATE TABLE t (Id INT, Notes);''"]
    by blast
qed

subsection \<open>Foreign keys\<close>

lemma contains_suffix: "suffix t u \<Longrightarrow> contains sub t \<Longrightarrow> contains sub u"
proof (induction u)
  case Nil
  then show ?case by simp
next
  case (Cons c u)
  show ?case
  proof (cases "t = c # u")
    case True
    with Cons.prems show ?thesis by simp
  next
    case False
    with Cons.prems have "suffix t u" by (simp add: suffix_Cons)
    then have "contains sub u" using Cons.prems(2) by (rule Cons.IH)
    then show ?thesis by simp
  qed
qed

lemma contains_prefix: "contains sub (sub @ r)"
proof (cases "sub @ r")
  case Nil
  then show ?thesis by simp
next
  case (Cons a list)
  then have "prefix sub (a # list)" by (metis prefixI)
  then show ?thesis by (simp add: Cons)
qed

lemma lower_suffix: "suffix t u \<Longrightarrow> suffix (lower t) (lower u)"
  by (auto simp: suffix_def lower_def)

lemma match_lit_contains:
  assumes "match_lit p s = Some r" and "suffix s u"
  shows "contains (lower p) (lower u)"
proof -
  from match_lit_Some [OF assms(1)] obtain m where m: "s = m @ r" "lower m = lower p" by blast
  then have "contains (lower p) (lower s)" using contains_prefix [of "lower p" "lower r"]
    by (simp add: lower_append)
  then show ?thesis using lower_suffix [OF assms(2)] contains_suffix by blast
qed

lemma match_lit_suffix: "match_lit p s = Some r \<Longrightarrow> suffix r s"
  using match_lit_Some [of p s r] by (auto simp: suffix_def)

lemma spaces1_suffix: "spaces1 s = Some r \<Longrightarrow> suffix r s"
  by (auto simp: spaces1_def suffix_dropWhile split: if_splits)

lemma spaces0_suffix: "suffix (spaces0 s) s"
  by (simp add: spaces0_def suffix_dropWhile)

lemma word1_suffix: "word1 s = Some (w, r) \<Longrightarrow> suffix r s"
  by (auto simp: word1_def suffix_dropWhile split: if_splits)

lemma lower_references: "lower ''REFERENCES'' = ''references''"
  by code_simp

lemma fk_at_chain:
  assumes "fk_at s = Some g"
  shows "\<exists>s1 s2 s3 s4 g1 s5 s6 s7.
    match_lit ''FOREIGN'' s = Some s1 \<and> spaces1 s1 = Some s2 \<and> match_lit ''KEY'' s2 = Some s3
    \<and> match_lit ''('' (spaces0 s3) = Some s4 \<and> word1 s4 = Some (g1, s5)
    \<and> match_lit '')'' s5 = Some s6 \<and> match_lit ''REFERENCES'' (spaces0 s6) = Some s7"
  using assms unfolding fk_at_def
  by (simp only: Option.bind_eq_Some_conv split_paired_Ex case_prod_conv) blast

lemma fk_at_references:
  assumes "fk_at s = Some g"
  shows "contains ''references'' (lower s)"
proof -
  from fk_at_chain [OF assms] obtain s1 s2 s3 s4 g1 s5 s6 s7 where
    a1: "match_lit ''FOREIGN'' s = Some s1" and a2: "spaces1 s1 = Some s2"
    and a3: "match_lit ''KEY'' s2 = Some s3" and a4: "match_lit ''('' (spaces0 s3) = Some s4"
    and a5: "word1 s4 = Some (g1, s5)" and a6: "match_lit '')'' s5 = Some s6"
    and r: "match_lit ''REFERENCES'' (spaces0 s6) = Some s7"
    by blast
  have "suffix s1 s" using a1 by (rule match_lit_suffix)
  moreover have "suffix s2 s1" using a2 by (rule spaces1_suffix)
  ultimately have "suffix s2 s" by (rule suffix_order.trans [rotated])
  moreover have "suffix s3 s2" using a3 by (rule match_lit_suffix)
  ultimately have "suffix s3 s" by (rule suffix_order.trans [rotated])
  moreover have "suffix (spaces0 s3) s3" by (rule spaces0_suffix)
  ultimately have "suffix (spaces0 s3) s" by (rule suffix_order.trans [rotated])
  moreover have "suffix s4 (spaces0 s3)" using a4 by (rule match_lit_suffix)
  ultimately have "suffix s4 s" by (rule suffix_order.trans [rotated])
  moreover have "suffix s5 s4" using a5 by (rule word1_suffix)
  ultimately have "suffix s5 s" by (rule suffix_order.trans [rotated])
  moreover have "suffix s6 s5" using a6 by (rule match_lit_suffix)
  ultimately have "suffix s6 s" by (rule suffix_order.trans [rotated])
  moreover have "suffix (spaces0 s6) s6" by (rule spaces0_suffix)
  ultimately have "suffix (spaces0 s6) s" by (rule suffix_order.trans [rotated])
  from match_lit_contains [OF r this] show ?thesis by (simp only: lower_references)
qed

lemma fk_search_references:
  "fk_search s = Some g \<Longrightarrow> contains ''references'' (lower s)"
proof (induction s)
  case Nil
  then show ?case using fk_at_references [of "[]" g] by simp
next
  case (Cons c s)
  show ?case
  proof (cases "fk_at (c # s)")
    case None
    with Cons.prems have "fk_search s = Some g" by simp
    then have "contains ''references'' (lower s)" by (rule Cons.IH)
    then show ?thesis by (simp add: lower_def)
  next
    case (Some a)
    then show ?thesis using fk_at_references by blast
  qed
qed

lemma parse_definitions_append:
  "parse_definitions table_name (xs @ ys) st =
     parse_definitions table_name ys (parse_definitions table_name xs st)"
  by (induction xs arbitrary: st) simp_all

lemma parse_definition_malformed:
  assumes "startswith (upper (strip line)) (code_points ''FOREIGN KEY'')"
    and "fk_search (strip line) = None"
  shows "parse_definition table_name line st = st"
  using assms by (cases st) (simp add: parse_definition_def Let_def)

text \<open>
  C8. A definition that starts with \<open>FOREIGN KEY\<close> and in which the pattern of line
  1181 finds no match leaves the attributes, the columns and the relationships as
  they were, and the definitions around it are parsed as if it were not there. A
  definition without the word \<open>REFERENCES\<close>, in any case, is one in which the pattern
  finds no match.
\<close>

theorem malformed_foreign_key_dropped:
  "(startswith (upper (strip line)) (code_points ''FOREIGN KEY'') \<and> fk_search (strip line) = None
      \<longrightarrow> parse_definition table_name line st = st
          \<and> parse_definitions table_name (pre @ [line] @ post) st
              = parse_definitions table_name (pre @ post) st)
   \<and> (\<not> contains ''references'' (lower s) \<longrightarrow> fk_search s = None)"
proof -
  have "parse_definitions table_name (pre @ [line] @ post) st
          = parse_definitions table_name (pre @ post) st"
    if "startswith (upper (strip line)) (code_points ''FOREIGN KEY'')"
      and "fk_search (strip line) = None"
    using parse_definition_malformed [OF that] by (simp add: parse_definitions_append)
  moreover have "fk_search s = None" if "\<not> contains ''references'' (lower s)"
    using that fk_search_references [of s] by (cases "fk_search s") auto
  ultimately show ?thesis
    using parse_definition_malformed [of line table_name st] by blast
qed

theorem malformed_foreign_key_dropped_witness:
  "startswith (upper (strip ''foreign key (a) references'')) (code_points ''FOREIGN KEY'')
   \<and> fk_search (strip ''foreign key (a) references'') = None
   \<and> \<not> contains ''references'' (lower ''FOREIGN KEY (a)'')
   \<and> parse_definition ''t'' ''foreign key (a) references'' ([''a''], [], []) = ([''a''], [], [])
   \<and> parse_definitions ''t'' ([''a INT''] @ [''foreign key (a) references''] @ [''b INT'']) ([], [], [])
       = parse_definitions ''t'' ([''a INT''] @ [''b INT'']) ([], [], [])
   \<and> fk_search ''FOREIGN KEY (a)'' = None"
proof -
  have h1: "startswith (upper (strip ''foreign key (a) references'')) (code_points ''FOREIGN KEY'')"
    by code_simp
  have h2: "fk_search (strip ''foreign key (a) references'') = None" by code_simp
  have h3: "\<not> contains ''references'' (lower ''FOREIGN KEY (a)'')" by code_simp
  show ?thesis
    using h1 h2 h3
      malformed_foreign_key_dropped [of "''foreign key (a) references''" "''t''"
        "([''a''], [], [])" "[''a INT'']" "[''b INT'']" "''FOREIGN KEY (a)''"]
      malformed_foreign_key_dropped [of "''foreign key (a) references''" "''t''"
        "([], [], [])" "[''a INT'']" "[''b INT'']" "''FOREIGN KEY (a)''"]
    by blast
qed

subsection \<open>Texts without a table\<close>

lemma lower_create: "lower ''CREATE'' = ''create''"
  by code_simp

lemma create_at_contains:
  assumes "create_at s = Some g"
  shows "prefix ''create'' (lower s)"
proof -
  from assms obtain s1 where "match_lit ''CREATE'' s = Some s1"
    unfolding create_at_def by (simp only: Option.bind_eq_Some_conv) blast
  from match_lit_Some [OF this] obtain m where "s = m @ s1" "lower m = lower ''CREATE''" by blast
  then show ?thesis by (simp add: lower_append lower_create del: append.simps)
qed

lemma findall_create_skip_prefix:
  "(\<forall>i < length p. create_at (drop i (p @ s)) = None) \<Longrightarrow>
   findall_create 0 (p @ s) = findall_create 0 s"
proof (induction p)
  case Nil
  then show ?case by simp
next
  case (Cons c p)
  have here: "create_at (c # p @ s) = None" using Cons.prems [rule_format, of 0] by simp
  have "\<forall>i < length p. create_at (drop i (p @ s)) = None"
  proof (intro allI impI)
    fix i assume "i < length p"
    then show "create_at (drop i (p @ s)) = None"
      using Cons.prems [rule_format, of "Suc i"] by simp
  qed
  then show ?case using here Cons.IH by simp
qed

lemma findall_create_none:
  "\<not> contains ''create'' (lower s) \<Longrightarrow> findall_create 0 s = []"
proof (induction s)
  case Nil
  then show ?case by simp
next
  case (Cons c s)
  then have np: "\<not> prefix ''create'' (lower (c # s))" and rest: "\<not> contains ''create'' (lower s)"
    by (simp_all add: lower_def)
  have "create_at (c # s) = None"
    using np create_at_contains [of "c # s"] by (cases "create_at (c # s)") auto
  then show ?case using Cons.IH [OF rest] by simp
qed

lemma until_close_Some:
  "until_close s = Some (body, rest) \<Longrightarrow> s = body @ '');'' @ rest \<and> \<not> contains '');'' body"
proof (induction s arbitrary: body)
  case Nil
  then show ?case by simp
next
  case (Cons c cs)
  show ?case
  proof (cases "prefix '');'' (c # cs)")
    case True
    then obtain z where z: "c # cs = '');'' @ z" by (auto simp: prefix_def)
    from True Cons.prems have "body = []" "rest = drop 2 (c # cs)" by simp_all
    then show ?thesis using z by simp
  next
    case False
    with Cons.prems obtain b where b: "until_close cs = Some (b, rest)" and body: "body = c # b"
      by auto
    from Cons.IH [OF b] have cs: "cs = b @ '');'' @ rest" and nb: "\<not> contains '');'' b" by simp_all
    have "\<not> prefix '');'' (c # b)"
    proof
      assume "prefix '');'' (c # b)"
      then have "prefix '');'' ((c # b) @ '');'' @ rest)" by (rule prefix_prefix)
      moreover have "c # cs = (c # b) @ '');'' @ rest" using cs by simp
      ultimately have "prefix '');'' (c # cs)" by (simp only:)
      then show False using False by blast
    qed
    then have "\<not> contains '');'' (c # b)" using nb by simp
    then show ?thesis using cs body by simp
  qed
qed

lemma if_not_exists_suffix: "if_not_exists s = Some r \<Longrightarrow> suffix r s"
proof -
  assume "if_not_exists s = Some r"
  then obtain s1 s2 s3 s4 s5 where
    a1: "match_lit ''IF'' s = Some s1" and a2: "spaces1 s1 = Some s2"
    and a3: "match_lit ''NOT'' s2 = Some s3" and a4: "spaces1 s3 = Some s4"
    and a5: "match_lit ''EXISTS'' s4 = Some s5" and a6: "spaces1 s5 = Some r"
    unfolding if_not_exists_def
    by (simp only: Option.bind_eq_Some_conv) blast
  have "suffix s1 s" using a1 by (rule match_lit_suffix)
  moreover have "suffix s2 s1" using a2 by (rule spaces1_suffix)
  ultimately have "suffix s2 s" by (rule suffix_order.trans [rotated])
  moreover have "suffix s3 s2" using a3 by (rule match_lit_suffix)
  ultimately have "suffix s3 s" by (rule suffix_order.trans [rotated])
  moreover have "suffix s4 s3" using a4 by (rule spaces1_suffix)
  ultimately have "suffix s4 s" by (rule suffix_order.trans [rotated])
  moreover have "suffix s5 s4" using a5 by (rule match_lit_suffix)
  ultimately have "suffix s5 s" by (rule suffix_order.trans [rotated])
  moreover have "suffix r s5" using a6 by (rule spaces1_suffix)
  ultimately show "suffix r s" by (rule suffix_order.trans [rotated])
qed

lemma create_at_chain:
  assumes "create_at s = Some (table_name, body, rest)"
  shows "\<exists>s1 s2 s3 s4 s5 s6.
    match_lit ''CREATE'' s = Some s1 \<and> spaces1 s1 = Some s2 \<and> match_lit ''TABLE'' s2 = Some s3
    \<and> spaces1 s3 = Some s4
    \<and> word1 (case if_not_exists s4 of Some r \<Rightarrow> r | None \<Rightarrow> s4) = Some (table_name, s5)
    \<and> match_lit ''('' (spaces0 s5) = Some s6 \<and> until_close s6 = Some (body, rest)"
  using assms unfolding create_at_def
  by (simp only: Option.bind_eq_Some_conv split_paired_Ex case_prod_conv option.inject prod.inject)
    blast

text \<open>A match takes at least the word \<open>CREATE\<close>, and its second group is the text up to
  the first \<open>);\<close> after the opening parenthesis.\<close>

lemma create_at_Some:
  assumes "create_at s = Some (table_name, body, rest)"
  shows "(\<exists>h. h \<noteq> [] \<and> s = h @ body @ '');'' @ rest) \<and> \<not> contains '');'' body"
proof -
  from create_at_chain [OF assms] obtain s1 s2 s3 s4 s5 s6 where
    a1: "match_lit ''CREATE'' s = Some s1" and a2: "spaces1 s1 = Some s2"
    and a3: "match_lit ''TABLE'' s2 = Some s3" and a4: "spaces1 s3 = Some s4"
    and a5: "word1 (case if_not_exists s4 of Some r \<Rightarrow> r | None \<Rightarrow> s4) = Some (table_name, s5)"
    and a6: "match_lit ''('' (spaces0 s5) = Some s6" and a7: "until_close s6 = Some (body, rest)"
    by blast
  from match_lit_Some [OF a1] obtain m where m: "s = m @ s1" "lower m = lower ''CREATE''" by blast
  then have "length (lower m) = 6" by (simp add: lower_def)
  then have mn: "m \<noteq> []" by (auto simp: lower_def)
  have "suffix s2 s1" using a2 by (rule spaces1_suffix)
  moreover have "suffix s3 s2" using a3 by (rule match_lit_suffix)
  ultimately have "suffix s3 s1" by (rule suffix_order.trans [rotated])
  moreover have "suffix s4 s3" using a4 by (rule spaces1_suffix)
  ultimately have s4: "suffix s4 s1" by (rule suffix_order.trans [rotated])
  have "suffix (case if_not_exists s4 of Some r \<Rightarrow> r | None \<Rightarrow> s4) s4"
    by (cases "if_not_exists s4") (simp_all add: if_not_exists_suffix)
  with s4 have "suffix (case if_not_exists s4 of Some r \<Rightarrow> r | None \<Rightarrow> s4) s1"
    by (rule suffix_order.trans [rotated])
  moreover have "suffix s5 (case if_not_exists s4 of Some r \<Rightarrow> r | None \<Rightarrow> s4)"
    using a5 by (rule word1_suffix)
  ultimately have "suffix s5 s1" by (rule suffix_order.trans [rotated])
  moreover have "suffix (spaces0 s5) s5" by (rule spaces0_suffix)
  ultimately have "suffix (spaces0 s5) s1" by (rule suffix_order.trans [rotated])
  moreover have "suffix s6 (spaces0 s5)" using a6 by (rule match_lit_suffix)
  ultimately have "suffix s6 s1" by (rule suffix_order.trans [rotated])
  then obtain x where x: "s1 = x @ s6" by (auto simp: suffix_def)
  from until_close_Some [OF a7] have u: "s6 = body @ '');'' @ rest" and n: "\<not> contains '');'' body"
    by simp_all
  have "s = (m @ x) @ body @ '');'' @ rest" using m(1) x u by simp
  moreover have "m @ x \<noteq> []" using mn by simp
  ultimately show ?thesis using n by blast
qed

lemma findall_create_skip: "findall_create (length a) (a @ r) = findall_create 0 r"
  by (induction a) simp_all

lemma findall_create_first:
  assumes "create_at s = Some (table_name, body, rest)"
  shows "findall_create 0 s = (table_name, body) # findall_create 0 rest"
proof -
  from create_at_Some [OF assms] obtain h where h: "h \<noteq> []" "s = h @ body @ '');'' @ rest"
    by blast
  then obtain c h' where c: "h = c # h'" by (cases h) auto
  define a where "a = h' @ body @ '');''"
  have s: "s = c # a @ rest" using h(2) c by (simp add: a_def)
  have "findall_create 0 (c # a @ rest)
      = (table_name, body) # findall_create (length (a @ rest) - length rest) (a @ rest)"
    using assms unfolding s by simp
  also have "\<dots> = (table_name, body) # findall_create 0 rest"
    by (simp add: findall_create_skip)
  finally show ?thesis unfolding s .
qed

text \<open>The relationships of the whole text are only added to.\<close>

lemma parse_definition_acc:
  "parse_definition table_name line (attrs, cols, rels)
     = (attrs @ fst (parse_definition table_name line ([], [], [])),
        cols @ fst (snd (parse_definition table_name line ([], [], []))),
        rels @ snd (snd (parse_definition table_name line ([], [], []))))"
  by (simp add: parse_definition_def Let_def split: option.splits)

lemma parse_definitions_acc:
  "parse_definitions table_name defs (attrs, cols, rels)
     = (attrs @ fst (parse_definitions table_name defs ([], [], [])),
        cols @ fst (snd (parse_definitions table_name defs ([], [], []))),
        rels @ snd (snd (parse_definitions table_name defs ([], [], []))))"
proof (induction defs arbitrary: attrs cols rels)
  case Nil
  then show ?case by simp
next
  case (Cons line defs)
  obtain a c r where p: "parse_definition table_name line ([], [], []) = (a, c, r)"
    by (cases "parse_definition table_name line ([], [], [])") auto
  have q: "parse_definition table_name line (attrs, cols, rels) = (attrs @ a, cols @ c, rels @ r)"
    using parse_definition_acc [of table_name line attrs cols rels] by (simp add: p)
  show ?case
    by (simp only: parse_definitions.simps p q Cons.IH [of "attrs @ a" "cols @ c" "rels @ r"]
        Cons.IH [of a c r] fst_conv snd_conv append_assoc)
qed

lemma parse_matches_acc:
  "parse_matches ms (tabs, rels)
     = (tabs @ fst (parse_matches ms ([], [])), rels @ snd (parse_matches ms ([], [])))"
proof (induction ms arbitrary: tabs rels)
  case Nil
  then show ?case by simp
next
  case (Cons m ms)
  obtain table_name cols where m: "m = (table_name, cols)" by (cases m) auto
  obtain a c r where p: "parse_definitions table_name (column_definitions cols) ([], [], []) = (a, c, r)"
    by (cases "parse_definitions table_name (column_definitions cols) ([], [], [])") auto
  have q: "parse_definitions table_name (column_definitions cols) ([], [], rels) = (a, c, rels @ r)"
    using parse_definitions_acc [of table_name "column_definitions cols" "[]" "[]" rels]
    by (simp add: p)
  show ?case
    by (simp only: m parse_matches.simps p q prod.case
        Cons.IH [of "tabs @ [\<lparr>name = table_name, attributes = a, columns = c\<rparr>]" "rels @ r"]
        Cons.IH [of "[\<lparr>name = table_name, attributes = a, columns = c\<rparr>]" r]
        fst_conv snd_conv append_assoc append_Nil)
qed

lemma parse_sql_to_schema_first:
  assumes "\<forall>i < length p. create_at (drop i (p @ s)) = None"
    and "create_at s = Some (table_name, body, rest)"
    and "parse_definitions table_name (column_definitions body) ([], [], []) = (attrs, cols, rels)"
  shows "parse_sql_to_schema (p @ s)
     = \<lparr>tables = \<lparr>name = table_name, attributes = attrs, columns = cols\<rparr>
                 # tables (parse_sql_to_schema rest),
        relationships = rels @ relationships (parse_sql_to_schema rest)\<rparr>"
proof -
  have f: "findall_create 0 (p @ s) = (table_name, body) # findall_create 0 rest"
    using findall_create_skip_prefix [OF assms(1)] findall_create_first [OF assms(2)] by simp
  obtain T R where x: "parse_matches (findall_create 0 rest) ([], []) = (T, R)"
    by (cases "parse_matches (findall_create 0 rest) ([], [])") auto
  have "parse_matches (findall_create 0 (p @ s)) ([], [])
      = parse_matches (findall_create 0 rest)
          ([] @ [\<lparr>name = table_name, attributes = attrs, columns = cols\<rparr>], rels)"
    by (simp only: f parse_matches.simps assms(3) prod.case)
  also have "\<dots> = (\<lparr>name = table_name, attributes = attrs, columns = cols\<rparr> # T, rels @ R)"
    using parse_matches_acc [of "findall_create 0 rest"
        "[\<lparr>name = table_name, attributes = attrs, columns = cols\<rparr>]" rels]
    by (simp add: x)
  finally show ?thesis by (simp add: parse_sql_to_schema_def x)
qed

lemma findall_create_no_match:
  assumes "\<forall>i < length sql. create_at (drop i sql) = None"
  shows "findall_create 0 sql = []"
  using findall_create_skip_prefix [of sql "[]"] assms by simp

text \<open>
  C4, as the specification states it, fails. The first block below ends with \<open>) ;\<close>
  and is no statement of the supported shape; the second is one. The pattern starts
  at the first \<open>CREATE\<close> and its second group runs to the first \<open>);\<close>, which is the
  end of the second block: the first table is returned, with the text of the second
  block inside its only definition, and the table \<open>u\<close> is lost.
\<close>

theorem parse_unclosed_block_counterexample:
  "parse_sql_to_schema ''CREATE TABLE t (a INT) ; CREATE TABLE u (b INT);''
     = \<lparr>tables = [\<lparr>name = ''t'', attributes = [''a''],
                   columns = [\<lparr>col_name = ''a'', col_type = ''INT''\<rparr>]\<rparr>],
        relationships = []\<rparr>
   \<and> parse_sql_to_schema ''CREATE TABLE u (b INT);''
     = \<lparr>tables = [\<lparr>name = ''u'', attributes = [''b''],
                   columns = [\<lparr>col_name = ''b'', col_type = ''INT''\<rparr>]\<rparr>],
        relationships = []\<rparr>"
  by code_simp

text \<open>
  C4, as amended. The parser is a total function into schemas: no operation of its body
  raises on a string. What it returns is determined by the positions at which the table
  pattern matches. A stretch of text in which the pattern matches at no position is
  skipped: the schema is that of the text after it. At the first position where the
  pattern matches, the match gives one table, built from the definitions of its second
  group, and the schema of the text after the match follows. The second group is the
  text up to the first \<open>);\<close> after the opening parenthesis, whatever it holds: a block
  whose \<open>);\<close> is missing takes in the following text up to the next \<open>);\<close>. A text in
  which the pattern matches at no position, and so a text without the word \<open>CREATE\<close>
  in any case, yields the empty schema.
\<close>

theorem parse_by_first_match:
  "((\<forall>i < length p. create_at (drop i (p @ sql)) = None) \<longrightarrow>
      parse_sql_to_schema (p @ sql) = parse_sql_to_schema sql)
   \<and> ((\<forall>i < length p. create_at (drop i (p @ sql)) = None)
        \<and> create_at sql = Some (table_name, body, rest)
        \<and> parse_definitions table_name (column_definitions body) ([], [], []) = (attrs, cols, rels) \<longrightarrow>
      parse_sql_to_schema (p @ sql)
        = \<lparr>tables = \<lparr>name = table_name, attributes = attrs, columns = cols\<rparr>
                    # tables (parse_sql_to_schema rest),
           relationships = rels @ relationships (parse_sql_to_schema rest)\<rparr>)
   \<and> (create_at sql = Some (table_name, body, rest) \<longrightarrow>
        (\<exists>h. h \<noteq> [] \<and> sql = h @ body @ '');'' @ rest) \<and> \<not> contains '');'' body)
   \<and> ((\<forall>i < length sql. create_at (drop i sql) = None) \<longrightarrow>
        parse_sql_to_schema sql = \<lparr>tables = [], relationships = []\<rparr>)
   \<and> (\<not> contains ''create'' (lower sql) \<longrightarrow>
        parse_sql_to_schema sql = \<lparr>tables = [], relationships = []\<rparr>)"
proof (intro conjI impI)
  assume "\<forall>i < length p. create_at (drop i (p @ sql)) = None"
  then show "parse_sql_to_schema (p @ sql) = parse_sql_to_schema sql"
    using findall_create_skip_prefix [of p sql] by (simp add: parse_sql_to_schema_def)
next
  assume "(\<forall>i < length p. create_at (drop i (p @ sql)) = None)
        \<and> create_at sql = Some (table_name, body, rest)
        \<and> parse_definitions table_name (column_definitions body) ([], [], []) = (attrs, cols, rels)"
  then show "parse_sql_to_schema (p @ sql)
        = \<lparr>tables = \<lparr>name = table_name, attributes = attrs, columns = cols\<rparr>
                    # tables (parse_sql_to_schema rest),
           relationships = rels @ relationships (parse_sql_to_schema rest)\<rparr>"
    using parse_sql_to_schema_first [of p sql table_name body rest attrs cols rels] by blast
next
  assume "create_at sql = Some (table_name, body, rest)"
  then show "\<exists>h. h \<noteq> [] \<and> sql = h @ body @ '');'' @ rest"
    using create_at_Some [of sql table_name body rest] by blast
next
  assume "create_at sql = Some (table_name, body, rest)"
  then show "\<not> contains '');'' body"
    using create_at_Some [of sql table_name body rest] by blast
next
  assume "\<forall>i < length sql. create_at (drop i sql) = None"
  then show "parse_sql_to_schema sql = \<lparr>tables = [], relationships = []\<rparr>"
    by (simp add: parse_sql_to_schema_def findall_create_no_match)
next
  assume "\<not> contains ''create'' (lower sql)"
  then show "parse_sql_to_schema sql = \<lparr>tables = [], relationships = []\<rparr>"
    by (simp add: parse_sql_to_schema_def findall_create_none)
qed

theorem parse_by_first_match_witness:
  "parse_sql_to_schema (''DROP TABLE x; '' @ ''CREATE TABLE t (a INT); CREATE TABLE u (b INT);'')
     = parse_sql_to_schema ''CREATE TABLE t (a INT); CREATE TABLE u (b INT);''
   \<and> create_at ''CREATE TABLE t (a INT); CREATE TABLE u (b INT);''
       = Some (''t'', ''a INT'', '' CREATE TABLE u (b INT);'')
   \<and> parse_sql_to_schema (''DROP TABLE x; '' @ ''CREATE TABLE t (a INT); CREATE TABLE u (b INT);'')
     = \<lparr>tables = \<lparr>name = ''t'', attributes = [''a''],
                   columns = [\<lparr>col_name = ''a'', col_type = ''INT''\<rparr>]\<rparr>
                 # tables (parse_sql_to_schema '' CREATE TABLE u (b INT);''),
        relationships = [] @ relationships (parse_sql_to_schema '' CREATE TABLE u (b INT);'')\<rparr>
   \<and> \<not> contains '');'' ''a INT''
   \<and> \<not> contains ''create'' (lower ''a library with books and students'')
   \<and> parse_sql_to_schema ''a library with books and students''
       = \<lparr>tables = [], relationships = []\<rparr>"
proof -
  let ?p = "''DROP TABLE x; ''" and ?sql = "''CREATE TABLE t (a INT); CREATE TABLE u (b INT);''"
  let ?prose = "''a library with books and students''"
  have h1: "\<forall>i < length ?p. create_at (drop i (?p @ ?sql)) = None"
  proof (intro allI impI)
    fix i assume "i < length ?p"
    then have "i \<in> set [0..<14]" by simp
    then have "list_all (\<lambda>i. create_at (drop i (?p @ ?sql)) = None) [0..<14] \<Longrightarrow>
        create_at (drop i (?p @ ?sql)) = None"
      by (simp only: list_all_iff)
    moreover have "list_all (\<lambda>i. create_at (drop i (?p @ ?sql)) = None) [0..<14]" by code_simp
    ultimately show "create_at (drop i (?p @ ?sql)) = None" by blast
  qed
  have h2: "create_at ?sql = Some (''t'', ''a INT'', '' CREATE TABLE u (b INT);'')" by code_simp
  have h3: "parse_definitions ''t'' (column_definitions ''a INT'') ([], [], [])
      = ([''a''], [\<lparr>col_name = ''a'', col_type = ''INT''\<rparr>], [])"
    by code_simp
  have h4: "\<forall>i < length ?prose. create_at (drop i ?prose) = None"
  proof (intro allI impI)
    fix i assume "i < length ?prose"
    then have "i \<in> set [0..<34]" by simp
    then have "list_all (\<lambda>i. create_at (drop i ?prose) = None) [0..<34] \<Longrightarrow>
        create_at (drop i ?prose) = None"
      by (simp only: list_all_iff)
    moreover have "list_all (\<lambda>i. create_at (drop i ?prose) = None) [0..<34]" by code_simp
    ultimately show "create_at (drop i ?prose) = None" by blast
  qed
  have h5: "\<not> contains ''create'' (lower ?prose)" by code_simp
  show ?thesis
    using h1 h2 h3 h4 h5
      parse_by_first_match [where p = ?p and sql = ?sql and table_name = "''t''"
        and body = "''a INT''" and rest = "'' CREATE TABLE u (b INT);''"
        and attrs = "[''a'']" and cols = "[\<lparr>col_name = ''a'', col_type = ''INT''\<rparr>]"
        and rels = "[]"]
      parse_by_first_match [where p = "[]" and sql = ?prose]
    by blast
qed

section \<open>The round trip: generated text read back\<close>

lemma word_facts [simp]:
  "\<not> isword CHR '' ''" "\<not> isword CHR ''(''" "\<not> isword CHR '')''" "isword CHR ''s''"
  "\<not> isword CHR ''\<newline>''" "\<not> isword CHR '',''" "\<not> isword CHR '';''"
  by (simp_all add: isword_def)

lemma word_set:
  assumes "list_all isword w"
  shows "CHR '','' \<notin> set w" "CHR '';'' \<notin> set w" "CHR ''('' \<notin> set w" "CHR '')'' \<notin> set w"
    "CHR '' '' \<notin> set w" "CHR ''\<newline>'' \<notin> set w"
proof -
  have "x \<notin> set w" if "\<not> isword x" for x
    using assms that by (auto simp: list_all_iff)
  then show "CHR '','' \<notin> set w" "CHR '';'' \<notin> set w" "CHR ''('' \<notin> set w" "CHR '')'' \<notin> set w"
    "CHR '' '' \<notin> set w" "CHR ''\<newline>'' \<notin> set w"
    by simp_all
qed

lemma data_type_cases:
  "data_type a = ''INTEGER'' \<or> data_type a = ''DATE'' \<or> data_type a = ''TEXT''"
  by (simp add: data_type_def)

lemma paren_depth_none:
  assumes "CHR ''('' \<notin> set s" "CHR '')'' \<notin> set s"
  shows "paren_depth s = 0"
proof -
  have "filter (\<lambda>c. c = CHR ''('') s = []" using assms(1) by (induction s) auto
  moreover have "filter (\<lambda>c. c = CHR '')'') s = []" using assms(2) by (induction s) auto
  ultimately show ?thesis by (simp add: paren_depth_def)
qed

text \<open>Characters that end no definition and open or close no parenthesis.\<close>

lemma data_type_chars:
  "list_all (\<lambda>c. c \<noteq> CHR '','' \<and> c \<noteq> CHR ''('' \<and> c \<noteq> CHR '')'') (data_type a)"
  using data_type_cases [of a] by (elim disjE) simp_all

lemma space_facts [simp]:
  "isspace CHR '' ''" "isspace CHR ''\<newline>''"
  "\<not> isspace CHR ''R''" "\<not> isspace CHR ''E''" "\<not> isspace CHR ''T''" "\<not> isspace CHR ''Y''"
  "\<not> isspace CHR ''L''" "\<not> isspace CHR '')''" "\<not> isspace CHR ''F''" "\<not> isspace CHR ''(''"
  "\<not> isspace CHR ''K''" "\<not> isspace CHR ''I''" "\<not> isspace CHR ''N''" "\<not> isspace CHR ''s''"
  by (simp_all add: isspace_def)

lemma attr_core_plain:
  assumes "word_name a"
  shows "plain_def (attr_core a pk)"
proof -
  from assms obtain c w where a: "a = c # w" and c: "isword c" and w: "list_all isword w"
    by (cases a) (auto simp: word_name_def)
  have h: "\<not> isspace (hd (attr_core a pk))"
    using c by (simp add: attr_core_def a word_not_space)
  have l: "\<not> isspace (last (attr_core a pk))"
    using data_type_cases [of a] by (auto simp: attr_core_def)
  have "list_all isword a" using assms by (simp add: word_name_def)
  from word_set [OF this]
  have "list_all (\<lambda>c. c \<noteq> CHR '','' \<and> c \<noteq> CHR ''('' \<and> c \<noteq> CHR '')'') a"
    by (auto simp: list_all_iff)
  then have "list_all (\<lambda>c. c \<noteq> CHR '','' \<and> c \<noteq> CHR ''('' \<and> c \<noteq> CHR '')'') (attr_core a pk)"
    unfolding attr_core_def using data_type_chars [of a] by simp
  then have s: "CHR '','' \<notin> set (attr_core a pk) \<and> CHR ''('' \<notin> set (attr_core a pk)
      \<and> CHR '')'' \<notin> set (attr_core a pk)"
    by (auto simp only: list_all_iff)
  then have "paren_depth (attr_core a pk) = 0" by (simp add: paren_depth_none)
  then show ?thesis using h l s by (simp add: plain_def_def attr_core_def)
qed

lemma fk_core_plain:
  assumes "list_all isword (fromColumn r)" "list_all isword (toTable r)" "list_all isword (toColumn r)"
  shows "plain_def (fk_core r)"
proof -
  have d: "paren_depth (fromColumn r) = 0" "paren_depth (toTable r) = 0" "paren_depth (toColumn r) = 0"
    using assms word_set by (simp_all add: paren_depth_none)
  have "paren_depth (fk_core r) = 0"
    unfolding fk_core_def by (simp add: paren_depth_append d paren_depth_Cons paren_depth_Nil)
  moreover have "CHR '','' \<notin> set (fk_core r)"
    using assms word_set by (auto simp: fk_core_def)
  ultimately show ?thesis by (simp add: plain_def_def fk_core_def)
qed

lemma attr_line_core:
  "attr_line a pk comma = ''  '' @ attr_core a pk @ (if comma then '','' else []) @ ''\<newline>''"
  by (simp add: attr_line_def attr_core_def)

lemma fk_line_core:
  "fk_line r comma = ''  '' @ fk_core r @ (if comma then '','' else []) @ ''\<newline>''"
  by (simp add: fk_line_def fk_core_def)

lemma scan_columns_plain:
  "CHR '','' \<notin> set p \<Longrightarrow> scan_columns p pc cur defs = (pc + paren_depth p, cur @ p, defs)"
  by (rule scan_columns_nested) (auto simp: set_conv_nth)

lemma strip_line:
  assumes "plain_def core" "list_all isspace ws" "list_all isspace ws'"
  shows "strip (ws @ core @ ws') = core"
proof -
  have "strip (ws @ core @ ws') = strip (core @ ws')" using assms(2) by (rule strip_space_prefix)
  also have "\<dots> = strip core" using assms(3) by (rule strip_space_suffix)
  also have "\<dots> = core" using assms(1) by (simp add: plain_def_def strip_fixed)
  finally show ?thesis .
qed

lemma scan_columns_comma_newline:
  "scan_columns ('',\<newline>'' @ rest) 0 cur defs
     = scan_columns rest 0 ''\<newline>'' (if strip cur \<noteq> [] then defs @ [strip cur] else defs)"
  by simp

lemma scan_line_comma:
  assumes "plain_def core" "list_all isspace ws"
  shows "scan_columns (''  '' @ core @ '',\<newline>'' @ rest) 0 ws defs
           = scan_columns rest 0 ''\<newline>'' (defs @ [core])"
proof -
  have c: "CHR '','' \<notin> set (''  '' @ core)" using assms(1) by (simp add: plain_def_def)
  have d: "paren_depth (''  '' @ core) = 0"
    using assms(1) by (simp add: plain_def_def paren_depth_Cons)
  have s: "strip (ws @ ''  '' @ core) = core"
    using strip_line [OF assms(1), of "ws @ ''  ''" "[]"] assms(2) by simp
  have st: "scan_columns (''  '' @ core) 0 ws defs = (0, ws @ ''  '' @ core, defs)"
    using scan_columns_plain [OF c, of 0 ws defs] d by simp
  have "scan_columns ((''  '' @ core) @ '',\<newline>'' @ rest) 0 ws defs
      = scan_columns ('',\<newline>'' @ rest) 0 (ws @ ''  '' @ core) defs"
    by (simp only: scan_columns_append [of "''  '' @ core" "'',\<newline>'' @ rest"] st prod.case)
  also have "\<dots> = scan_columns rest 0 ''\<newline>'' (defs @ [core])"
  proof -
    have "core \<noteq> []" using assms(1) by (simp add: plain_def_def)
    then show ?thesis by (simp only: scan_columns_comma_newline s if_True not_False_eq_True)
  qed
  finally show ?thesis by (simp only: append_assoc)
qed

lemma scan_line_last:
  assumes "plain_def core" "list_all isspace ws"
  shows "scan_columns (''  '' @ core @ ''\<newline>'') 0 ws defs = (0, ws @ ''  '' @ core @ ''\<newline>'', defs)"
    and "strip (ws @ ''  '' @ core @ ''\<newline>'') = core"
proof -
  have c: "CHR '','' \<notin> set (''  '' @ core @ ''\<newline>'')" using assms(1) by (simp add: plain_def_def)
  have d: "paren_depth (''  '' @ core @ ''\<newline>'') = 0"
    using assms(1) by (simp add: plain_def_def paren_depth_Cons paren_depth_append paren_depth_Nil)
  show "scan_columns (''  '' @ core @ ''\<newline>'') 0 ws defs = (0, ws @ ''  '' @ core @ ''\<newline>'', defs)"
    using scan_columns_plain [OF c, of 0 ws defs] d by simp
  show "strip (ws @ ''  '' @ core @ ''\<newline>'') = core"
    using strip_line [OF assms(1), of "ws @ ''  ''" "''\<newline>''"] assms(2) by simp
qed

lemma scan_lines_comma:
  assumes "\<forall>j < k. plain_def (g j)" "list_all isspace ws"
  shows "scan_columns (concat (map (\<lambda>j. ''  '' @ g j @ '',\<newline>'') [0..<k]) @ rest) 0 ws defs
           = scan_columns rest 0 (if k = 0 then ws else ''\<newline>'') (defs @ map g [0..<k])"
  using assms(1)
proof (induction k arbitrary: rest)
  case 0
  then show ?case by simp
next
  case (Suc k)
  have p: "plain_def (g k)" using Suc.prems by simp
  have sp: "list_all isspace (if k = 0 then ws else ''\<newline>'')" using assms(2) by simp
  have "scan_columns (concat (map (\<lambda>j. ''  '' @ g j @ '',\<newline>'') [0..<Suc k]) @ rest) 0 ws defs
      = scan_columns (concat (map (\<lambda>j. ''  '' @ g j @ '',\<newline>'') [0..<k])
          @ (''  '' @ g k @ '',\<newline>'' @ rest)) 0 ws defs"
    by simp
  also have "\<dots> = scan_columns (''  '' @ g k @ '',\<newline>'' @ rest) 0
      (if k = 0 then ws else ''\<newline>'') (defs @ map g [0..<k])"
    using Suc.prems by (intro Suc.IH) simp
  also have "\<dots> = scan_columns rest 0 ''\<newline>'' ((defs @ map g [0..<k]) @ [g k])"
    using p sp by (rule scan_line_comma)
  finally show ?case by simp
qed

lemma strip_spaces: "list_all isspace ws \<Longrightarrow> strip ws = []"
  using strip_space_prefix [of ws "[]"] by (simp add: strip_def)

lemma scan_lines_last:
  assumes "\<forall>j < Suc k. plain_def (g j)" "list_all isspace ws"
  shows "\<exists>cur. scan_columns (concat (map (\<lambda>j. ''  '' @ g j @ '',\<newline>'') [0..<k])
             @ ''  '' @ g k @ ''\<newline>'') 0 ws defs = (0, cur, defs @ map g [0..<k])
           \<and> strip cur = g k"
proof -
  let ?ws = "if k = 0 then ws else ''\<newline>''"
  have p: "plain_def (g k)" and q: "\<forall>j < k. plain_def (g j)" using assms(1) by simp_all
  have sp: "list_all isspace ?ws" using assms(2) by simp
  have "scan_columns (concat (map (\<lambda>j. ''  '' @ g j @ '',\<newline>'') [0..<k])
      @ ''  '' @ g k @ ''\<newline>'') 0 ws defs
    = scan_columns (''  '' @ g k @ ''\<newline>'') 0 ?ws (defs @ map g [0..<k])"
    using q assms(2) by (rule scan_lines_comma)
  also have "\<dots> = (0, ?ws @ ''  '' @ g k @ ''\<newline>'', defs @ map g [0..<k])"
    using p sp by (rule scan_line_last(1))
  finally show ?thesis using scan_line_last(2) [OF p sp] by blast
qed

lemma scan_newline:
  "scan_columns (''\<newline>'' @ rest) 0 [] [] = scan_columns rest 0 ''\<newline>'' []"
  by simp

text \<open>A body in which every line ends with a comma.\<close>

lemma column_definitions_commas:
  assumes "\<forall>j < n. plain_def (g j)"
  shows "column_definitions (''\<newline>'' @ concat (map (\<lambda>j. ''  '' @ g j @ '',\<newline>'') [0..<n]))
           = map g [0..<n]"
proof -
  have sp: "list_all isspace ''\<newline>''" by simp
  have "scan_columns (''\<newline>'' @ concat (map (\<lambda>j. ''  '' @ g j @ '',\<newline>'') [0..<n])) 0 [] []
      = scan_columns (concat (map (\<lambda>j. ''  '' @ g j @ '',\<newline>'') [0..<n]) @ []) 0 ''\<newline>'' []"
    by (simp only: scan_newline append_Nil2)
  also have "\<dots> = scan_columns [] 0 (if n = 0 then ''\<newline>'' else ''\<newline>'') ([] @ map g [0..<n])"
    using assms sp by (rule scan_lines_comma)
  finally have "scan_columns (''\<newline>'' @ concat (map (\<lambda>j. ''  '' @ g j @ '',\<newline>'') [0..<n])) 0 [] []
      = (0, ''\<newline>'', map g [0..<n])"
    by simp
  then show ?thesis
    using strip_spaces [OF sp] by (simp only: column_definitions_def prod.case) simp
qed

text \<open>A body in which every line but the last ends with a comma: \<open>n\<close> lines of one
  kind, then \<open>m + 1\<close> of another.\<close>

lemma column_definitions_last:
  assumes "\<forall>j < n. plain_def (g j)" "\<forall>j < Suc m. plain_def (h j)"
  shows "column_definitions (''\<newline>'' @ concat (map (\<lambda>j. ''  '' @ g j @ '',\<newline>'') [0..<n])
             @ concat (map (\<lambda>j. ''  '' @ h j @ '',\<newline>'') [0..<m]) @ ''  '' @ h m @ ''\<newline>'')
           = map g [0..<n] @ map h [0..<Suc m]"
proof -
  let ?rest = "concat (map (\<lambda>j. ''  '' @ h j @ '',\<newline>'') [0..<m]) @ ''  '' @ h m @ ''\<newline>''"
  have sp: "list_all isspace ''\<newline>''" by simp
  have "scan_columns (''\<newline>'' @ concat (map (\<lambda>j. ''  '' @ g j @ '',\<newline>'') [0..<n]) @ ?rest) 0 [] []
      = scan_columns (concat (map (\<lambda>j. ''  '' @ g j @ '',\<newline>'') [0..<n]) @ ?rest) 0 ''\<newline>'' []"
    by (simp only: scan_newline)
  also have "\<dots> = scan_columns ?rest 0 (if n = 0 then ''\<newline>'' else ''\<newline>'') ([] @ map g [0..<n])"
    using assms(1) sp by (rule scan_lines_comma)
  also have "\<dots> = scan_columns ?rest 0 ''\<newline>'' (map g [0..<n])" by simp
  finally have e: "scan_columns
        (''\<newline>'' @ concat (map (\<lambda>j. ''  '' @ g j @ '',\<newline>'') [0..<n]) @ ?rest) 0 [] []
      = scan_columns ?rest 0 ''\<newline>'' (map g [0..<n])" .
  from scan_lines_last [OF assms(2) sp, of "map g [0..<n]"] obtain cur where
    c: "scan_columns ?rest 0 ''\<newline>'' (map g [0..<n]) = (0, cur, map g [0..<n] @ map h [0..<m])"
    and s: "strip cur = h m"
    by blast
  have "h m \<noteq> []" using assms(2) by (simp add: plain_def_def)
  then show ?thesis
    using s by (simp only: column_definitions_def e c prod.case) simp
qed

lemma concat_map_last:
  "concat (map L [0..<Suc k]) = concat (map L [0..<k]) @ L k"
  by simp

lemma concat_map_cong:
  "(\<And>j. j < k \<Longrightarrow> L j = W j) \<Longrightarrow> concat (map L [0..<k]) = concat (map W [0..<k])"
  by (rule arg_cong [where f = concat]) (rule map_cong, simp_all)

text \<open>The text of a table between the parenthesis after its name and the closing
  \<open>);\<close>.\<close>

lemma generate_table_sql_body:
  "generate_table_sql t all_tables rels =
     ''CREATE TABLE IF NOT EXISTS '' @ name t @ ''s ('' @
     (''\<newline>''
      @ concat (map (\<lambda>j. attr_line (table_attributes t ! j) (j = pk_index (table_attributes t))
                           (int j \<noteq> int (length (table_attributes t)) - 1 \<or> rels \<noteq> []))
                 [0..<length (table_attributes t)])
      @ concat (map (\<lambda>j. fk_line (table_relationships t rels ! j)
                           (int j < int (length (table_relationships t rels)) - 1))
                 [0..<length (table_relationships t rels)]))
     @ '');''"
  by (simp add: generate_table_sql_unfold create_header_def)

lemma table_body_definitions:
  assumes "list_all word_name (table_attributes t)"
    and "list_all (\<lambda>r. word_name (fromColumn r) \<and> list_all isword (toTable r)
           \<and> word_name (toColumn r)) rels"
  shows "column_definitions
     (''\<newline>''
      @ concat (map (\<lambda>j. attr_line (table_attributes t ! j) (j = pk_index (table_attributes t))
                           (int j \<noteq> int (length (table_attributes t)) - 1 \<or> rels \<noteq> []))
                 [0..<length (table_attributes t)])
      @ concat (map (\<lambda>j. fk_line (table_relationships t rels ! j)
                           (int j < int (length (table_relationships t rels)) - 1))
                 [0..<length (table_relationships t rels)]))
     = map (\<lambda>j. attr_core (table_attributes t ! j) (j = pk_index (table_attributes t)))
         [0..<length (table_attributes t)]
       @ map fk_core (table_relationships t rels)"
proof -
  define attrs where "attrs = table_attributes t"
  define trels where "trels = table_relationships t rels"
  define n where "n = length attrs"
  define m where "m = length trels"
  define g where "g = (\<lambda>j. attr_core (attrs ! j) (j = pk_index attrs))"
  define h where "h = (\<lambda>j. fk_core (trels ! j))"
  define AP where "AP = concat (map (\<lambda>j. attr_line (attrs ! j) (j = pk_index attrs)
      (int j \<noteq> int n - 1 \<or> rels \<noteq> [])) [0..<n])"
  define FP where "FP = concat (map (\<lambda>j. fk_line (trels ! j) (int j < int m - 1)) [0..<m])"
  have pg: "\<forall>j < n. plain_def (g j)"
    using assms(1) by (simp add: g_def n_def attrs_def list_all_length attr_core_plain)
  have "set trels \<subseteq> set rels" by (auto simp: trels_def table_relationships_def)
  then have "list_all (\<lambda>r. word_name (fromColumn r) \<and> list_all isword (toTable r)
           \<and> word_name (toColumn r)) trels"
    using assms(2) by (auto simp: list_all_iff)
  then have ph: "\<forall>j < m. plain_def (h j)"
    by (simp add: h_def m_def list_all_length fk_core_plain word_name_def)
  have hm: "map h [0..<m] = map fk_core trels"
    unfolding h_def m_def by (rule nth_equalityI) simp_all
  have FP_last: "FP = concat (map (\<lambda>j. ''  '' @ h j @ '',\<newline>'') [0..<m'])
      @ ''  '' @ h m' @ ''\<newline>''" if "m = Suc m'" for m'
  proof -
    have "concat (map (\<lambda>j. fk_line (trels ! j) (int j < int m - 1)) [0..<m'])
        = concat (map (\<lambda>j. ''  '' @ h j @ '',\<newline>'') [0..<m'])"
      by (rule concat_map_cong) (simp add: that fk_line_core h_def)
    then show ?thesis
      unfolding FP_def that concat_map_last by (simp add: fk_line_core h_def)
  qed
  have goal: "column_definitions (''\<newline>'' @ AP @ FP) = map g [0..<n] @ map h [0..<m]"
  proof (cases "rels = []")
    case False
    have AP_commas: "AP = concat (map (\<lambda>j. ''  '' @ g j @ '',\<newline>'') [0..<n])"
      unfolding AP_def by (rule concat_map_cong) (simp add: False attr_line_core g_def)
    show ?thesis
    proof (cases m)
      case 0
      then have "FP = []" by (simp add: FP_def)
      then show ?thesis
        using column_definitions_commas [OF pg] 0 by (simp add: AP_commas)
    next
      case (Suc m')
      have "\<forall>j < Suc m'. plain_def (h j)" using ph Suc by simp
      from column_definitions_last [OF pg this] show ?thesis
        by (simp only: AP_commas FP_last [OF Suc] Suc)
    qed
  next
    case True
    then have "trels = []" by (simp add: trels_def table_relationships_def)
    then have m0: "m = 0" and "FP = []" by (simp_all add: m_def FP_def)
    show ?thesis
    proof (cases n)
      case 0
      then have "AP = []" by (simp add: AP_def)
      then show ?thesis
        using column_definitions_commas [of 0 g] 0 m0 \<open>FP = []\<close> by simp
    next
      case (Suc n')
      have "concat (map (\<lambda>j. attr_line (attrs ! j) (j = pk_index attrs)
          (int j \<noteq> int n - 1 \<or> rels \<noteq> [])) [0..<n'])
        = concat (map (\<lambda>j. ''  '' @ g j @ '',\<newline>'') [0..<n'])"
        by (rule concat_map_cong) (simp add: Suc True attr_line_core g_def)
      then have AP_last: "AP = concat (map (\<lambda>j. ''  '' @ g j @ '',\<newline>'') [0..<n'])
          @ ''  '' @ g n' @ ''\<newline>''"
        unfolding AP_def Suc concat_map_last by (simp add: True attr_line_core g_def)
      have "\<forall>j < Suc n'. plain_def (g j)" using pg Suc by simp
      from column_definitions_last [of 0 g n' g, OF _ this] show ?thesis
        using m0 \<open>FP = []\<close> by (simp add: AP_last Suc)
    qed
  qed
  show ?thesis
    using goal hm
    unfolding AP_def FP_def g_def h_def n_def m_def attrs_def trels_def by simp
qed

lemma word1_word:
  assumes "word_name w" "r = [] \<or> \<not> isword (hd r)"
  shows "word1 (w @ r) = Some (w, r)"
proof -
  have a: "\<And>x. x \<in> set w \<Longrightarrow> isword x" and n: "w \<noteq> []"
    using assms(1) by (simp_all add: word_name_def list_all_iff)
  have r: "takeWhile isword r = []" "dropWhile isword r = r"
    using assms(2) by (cases r; simp)+
  have "takeWhile isword (w @ r) = w" using a r by (simp add: takeWhile_append2)
  moreover have "dropWhile isword (w @ r) = r" using a r by (simp add: dropWhile_append2)
  ultimately show ?thesis using n by (simp add: word1_def)
qed

lemma spaces1_one:
  "r = [] \<or> \<not> isspace (hd r) \<Longrightarrow> spaces1 (CHR '' '' # r) = Some r"
  by (cases r) (auto simp: spaces1_def)

lemma data_type_word: "word_name (data_type a)"
  using data_type_cases [of a] by (elim disjE) (simp_all add: word_name_def isword_def)

lemma data_type_hd: "\<not> isspace (hd (data_type a @ t))"
  using data_type_cases [of a] by (elim disjE) (simp_all add: isspace_def)

lemma attr_core_form:
  "\<exists>t. attr_core a pk = a @ CHR '' '' # data_type a @ t \<and> (t = [] \<or> hd t = CHR '' '')"
proof -
  let ?t = "(if pk then '' PRIMARY KEY'' else [])
     @ (if contains ''email'' (lower a) then '' UNIQUE'' else [])
     @ (if contains ''name'' (lower a) \<and> \<not> endswith (lower a) ''_id'' then '' NOT NULL'' else [])"
  have "attr_core a pk = a @ CHR '' '' # data_type a @ ?t" by (simp add: attr_core_def)
  moreover have "?t = [] \<or> hd ?t = CHR '' ''" by simp
  ultimately show ?thesis by blast
qed

lemma col_match_attr:
  assumes "word_name a"
  shows "col_match (attr_core a pk) = Some (a, data_type a)"
proof -
  from attr_core_form [of a pk] obtain t where
    f: "attr_core a pk = a @ CHR '' '' # data_type a @ t" and t: "t = [] \<or> hd t = CHR '' ''"
    by blast
  have w1: "word1 (a @ CHR '' '' # data_type a @ t) = Some (a, CHR '' '' # data_type a @ t)"
    using assms by (rule word1_word) simp
  have s1: "spaces1 (CHR '' '' # data_type a @ t) = Some (data_type a @ t)"
    by (rule spaces1_one) (simp add: data_type_hd)
  have "t = [] \<or> \<not> isword (hd t)" using t by auto
  then have w2: "word1 (data_type a @ t) = Some (data_type a, t)"
    using data_type_word by (intro word1_word)
  show ?thesis by (simp add: col_match_def f w1 s1 w2)
qed

lemma upper_append: "upper (a @ b) = upper a @ upper b"
  by (simp add: upper_def)

lemma upper_data_type_hd: "hd (upper (data_type a @ t)) \<noteq> 75"
  using data_type_cases [of a] by (elim disjE) (simp_all add: upper_def upper_char_def)

lemma first_occurrence:
  assumes "x \<notin> set xs" "x \<notin> set xs'" "xs @ x # ys = xs' @ x # ys'"
  shows "xs = xs' \<and> ys = ys'"
proof -
  have a: "takeWhile (\<lambda>y. y \<noteq> x) (xs @ x # ys) = xs" using assms(1) by (induction xs) auto
  have b: "takeWhile (\<lambda>y. y \<noteq> x) (xs' @ x # ys') = xs'" using assms(2) by (induction xs') auto
  from a b assms(3) have "xs = xs'" by simp
  then show ?thesis using assms(3) by simp
qed

lemma attr_core_not_foreign_key:
  assumes "word_name a"
  shows "\<not> startswith (upper (attr_core a pk)) (code_points ''FOREIGN KEY'')"
proof
  assume s: "startswith (upper (attr_core a pk)) (code_points ''FOREIGN KEY'')"
  from attr_core_form [of a pk] obtain t where
    f: "attr_core a pk = a @ CHR '' '' # data_type a @ t"
    by blast
  have u: "upper (attr_core a pk) = upper a @ 32 # upper (data_type a @ t)"
    by (simp add: f upper_def upper_char_def)
  from s obtain z where
    e: "upper a @ 32 # upper (data_type a @ t) = [70, 79, 82, 69, 73, 71, 78] @ 32 # ([75, 69, 89] @ z)"
    unfolding startswith_def prefix_def u code_points_foreign_key by auto
  have "\<not> list_ex isspace a"
    using assms word_not_space by (auto simp: word_name_def list_all_iff list_ex_iff)
  then have n1: "(32::nat) \<notin> set (upper a)" using upper_space by blast
  have n2: "(32::nat) \<notin> set [70, 79, 82, 69, 73, 71, 78]" by simp
  have "upper (data_type a @ t) = [75, 69, 89] @ z"
    using first_occurrence [OF n1 n2 e] by blast
  then have "hd (upper (data_type a @ t)) = 75" by simp
  then show False using upper_data_type_hd by blast
qed

lemma parse_definition_attr:
  assumes "word_name a"
  shows "parse_definition table_name (attr_core a pk) (attrs, cols, rels)
           = (attrs @ [a], cols @ [\<lparr>col_name = a, col_type = data_type a\<rparr>], rels)"
proof -
  have p: "plain_def (attr_core a pk)" using assms by (rule attr_core_plain)
  then have s: "strip (attr_core a pk) = attr_core a pk" and n: "attr_core a pk \<noteq> []"
    by (simp_all add: plain_def_def strip_fixed)
  show ?thesis
    by (simp add: parse_definition_def s n attr_core_not_foreign_key [OF assms]
        col_match_attr [OF assms])
qed

lemma parse_definitions_attr_cores:
  assumes "list_all (\<lambda>p. word_name (fst p)) ps"
  shows "parse_definitions table_name (map (\<lambda>p. attr_core (fst p) (snd p)) ps) (attrs, cols, rels)
           = (attrs @ map fst ps,
              cols @ map (\<lambda>p. \<lparr>col_name = fst p, col_type = data_type (fst p)\<rparr>) ps, rels)"
  using assms
proof (induction ps arbitrary: attrs cols)
  case Nil
  then show ?case by simp
next
  case (Cons p ps)
  then show ?case by (simp add: parse_definition_attr)
qed

lemma parse_definitions_attrs:
  assumes "list_all word_name as"
  shows "parse_definitions table_name (map (\<lambda>j. attr_core (as ! j) (P j)) [0..<length as])
           (attrs, cols, rels)
           = (attrs @ as, cols @ map (\<lambda>a. \<lparr>col_name = a, col_type = data_type a\<rparr>) as, rels)"
proof -
  define ps where "ps = map (\<lambda>j. (as ! j, P j)) [0..<length as]"
  have f: "map fst ps = as" unfolding ps_def by (rule nth_equalityI) simp_all
  have w: "list_all (\<lambda>p. word_name (fst p)) ps"
    using assms by (simp add: ps_def list_all_length)
  have m: "map (\<lambda>j. attr_core (as ! j) (P j)) [0..<length as]
      = map (\<lambda>p. attr_core (fst p) (snd p)) ps"
    by (simp add: ps_def)
  have c: "map (\<lambda>p. \<lparr>col_name = fst p, col_type = data_type (fst p)\<rparr>) ps
      = map (\<lambda>a. \<lparr>col_name = a, col_type = data_type a\<rparr>) (map fst ps)"
    by simp
  show ?thesis
    unfolding m parse_definitions_attr_cores [OF w] c f ..
qed

subsection \<open>Foreign-key lines\<close>

lemma fk_core_foreign_key: "startswith (upper (fk_core r)) (code_points ''FOREIGN KEY'')"
  by (simp add: fk_core_def upper_def upper_char_def code_points_def startswith_def)

lemma word1_close:
  "word_name w \<Longrightarrow> word1 (w @ CHR '')'' # r) = Some (w, CHR '')'' # r)"
  by (rule word1_word) simp_all

lemma word1_plural:
  assumes "list_all isword w"
  shows "word1 (w @ CHR ''s'' # CHR ''('' # r) = Some (w @ ''s'', CHR ''('' # r)"
proof -
  have "word_name (w @ ''s'')" using assms by (simp add: word_name_def)
  then have "word1 ((w @ ''s'') @ CHR ''('' # r) = Some (w @ ''s'', CHR ''('' # r)"
    by (rule word1_word) simp
  then show ?thesis by simp
qed

lemma spaces1_plural:
  assumes "list_all isword w"
  shows "spaces1 (CHR '' '' # w @ CHR ''s'' # r) = Some (w @ CHR ''s'' # r)"
proof (rule spaces1_one)
  have "\<not> isspace (hd (w @ CHR ''s'' # r))"
    using assms by (cases w) (simp_all add: word_not_space)
  then show "w @ CHR ''s'' # r = [] \<or> \<not> isspace (hd (w @ CHR ''s'' # r))" by blast
qed

lemma spaces1_char: "\<not> isspace c \<Longrightarrow> spaces1 (CHR '' '' # c # r) = Some (c # r)"
  by (rule spaces1_one) simp

lemma spaces0_space: "\<not> isspace c \<Longrightarrow> spaces0 (CHR '' '' # c # r) = c # r"
  by (simp add: spaces0_def)

lemma spaces0_char: "\<not> isspace c \<Longrightarrow> spaces0 (c # r) = c # r"
  by (simp add: spaces0_def)

lemma fk_at_core:
  assumes "word_name (fromColumn r)" "list_all isword (toTable r)" "word_name (toColumn r)"
  shows "fk_at (fk_core r) = Some (fromColumn r, toTable r @ ''s'', toColumn r)"
  by (simp add: fk_at_def fk_core_def spaces1_char spaces0_space spaces0_char
      word1_close [OF assms(1)] word1_close [OF assms(3)]
      word1_plural [OF assms(2)] spaces1_plural [OF assms(2)])

lemma fk_search_at: "fk_at s = Some g \<Longrightarrow> fk_search s = Some g"
  by (cases s) simp_all

lemma parse_definition_fk:
  assumes "word_name (fromColumn r)" "list_all isword (toTable r)" "word_name (toColumn r)"
  shows "parse_definition table_name (fk_core r) (attrs, cols, rels)
           = (attrs, cols, rels @ [\<lparr>fromTable = table_name, fromColumn = fromColumn r,
                toTable = toTable r @ ''s'', toColumn = toColumn r\<rparr>])"
proof -
  have "plain_def (fk_core r)"
    using assms by (intro fk_core_plain) (simp_all add: word_name_def)
  then have s: "strip (fk_core r) = fk_core r" and n: "fk_core r \<noteq> []"
    by (simp_all add: plain_def_def strip_fixed)
  have f: "fk_search (fk_core r) = Some (fromColumn r, toTable r @ ''s'', toColumn r)"
    using fk_at_core [OF assms] by (rule fk_search_at)
  show ?thesis
    by (simp add: parse_definition_def s n fk_core_foreign_key f)
qed

lemma parse_definitions_fks:
  assumes "list_all (\<lambda>r. word_name (fromColumn r) \<and> list_all isword (toTable r)
           \<and> word_name (toColumn r)) rs"
  shows "parse_definitions table_name (map fk_core rs) (attrs, cols, rels)
           = (attrs, cols, rels @ map (\<lambda>r. \<lparr>fromTable = table_name, fromColumn = fromColumn r,
                toTable = toTable r @ ''s'', toColumn = toColumn r\<rparr>) rs)"
  using assms
proof (induction rs arbitrary: rels)
  case Nil
  then show ?case by simp
next
  case (Cons r rs)
  then show ?case by (simp add: parse_definition_fk)
qed

text \<open>The definitions of a generated table, parsed.\<close>

lemma table_rels_word:
  assumes "list_all (\<lambda>r. word_name (fromColumn r) \<and> list_all isword (toTable r)
           \<and> word_name (toColumn r)) rels"
  shows "list_all (\<lambda>r. word_name (fromColumn r) \<and> list_all isword (toTable r)
           \<and> word_name (toColumn r)) (table_relationships t rels)"
  using assms by (auto simp: list_all_iff table_relationships_def)

lemma parse_table_definitions:
  assumes "list_all word_name (table_attributes t)"
    and "list_all (\<lambda>r. word_name (fromColumn r) \<and> list_all isword (toTable r)
           \<and> word_name (toColumn r)) rels"
  shows "parse_definitions table_name
     (map (\<lambda>j. attr_core (table_attributes t ! j) (j = pk_index (table_attributes t)))
         [0..<length (table_attributes t)]
       @ map fk_core (table_relationships t rels)) ([], [], acc)
     = (table_attributes t,
        map (\<lambda>a. \<lparr>col_name = a, col_type = data_type a\<rparr>) (table_attributes t),
        acc @ map (\<lambda>r. \<lparr>fromTable = table_name, fromColumn = fromColumn r,
                toTable = toTable r @ ''s'', toColumn = toColumn r\<rparr>) (table_relationships t rels))"
  by (simp only: parse_definitions_append parse_definitions_attrs [OF assms(1)]
      parse_definitions_fks [OF table_rels_word [OF assms(2)]] append_Nil)

subsection \<open>The statement of a generated table is matched\<close>

lemma until_close_body:
  "CHR '';'' \<notin> set body \<Longrightarrow> until_close (body @ '');'' @ rest) = Some (body, rest)"
proof (induction body)
  case Nil
  then show ?case by simp
next
  case (Cons c cs)
  have "\<not> prefix '');'' (c # cs @ '');'' @ rest)"
    using Cons.prems by (cases cs) auto
  then show ?case using Cons by simp
qed

lemma word_no_semicolon: "list_all isword w \<Longrightarrow> list_all (\<lambda>c. c \<noteq> CHR '';'') w"
proof -
  have "\<not> isword CHR '';''" by (simp add: isword_def)
  then have "isword c \<Longrightarrow> c \<noteq> CHR '';''" for c by blast
  then show "list_all isword w \<Longrightarrow> list_all (\<lambda>c. c \<noteq> CHR '';'') w"
    by (simp add: list_all_iff)
qed

lemma data_type_no_semicolon: "list_all (\<lambda>c. c \<noteq> CHR '';'') (data_type a)"
  using data_type_cases [of a] by (elim disjE) simp_all

lemma attr_line_no_semicolon:
  assumes "word_name a"
  shows "CHR '';'' \<notin> set (attr_line a pk comma)"
proof -
  have "list_all (\<lambda>c. c \<noteq> CHR '';'') a"
    using assms by (simp add: word_name_def word_no_semicolon)
  then have "list_all (\<lambda>c. c \<noteq> CHR '';'') (attr_line a pk comma)"
    unfolding attr_line_def using data_type_no_semicolon [of a] by simp
  then show ?thesis by (auto simp only: list_all_iff)
qed

lemma fk_line_no_semicolon:
  assumes "word_name (fromColumn r)" "list_all isword (toTable r)" "word_name (toColumn r)"
  shows "CHR '';'' \<notin> set (fk_line r comma)"
proof -
  have "list_all (\<lambda>c. c \<noteq> CHR '';'') (fromColumn r)" "list_all (\<lambda>c. c \<noteq> CHR '';'') (toTable r)"
    "list_all (\<lambda>c. c \<noteq> CHR '';'') (toColumn r)"
    using assms by (simp_all add: word_name_def word_no_semicolon)
  then have "list_all (\<lambda>c. c \<noteq> CHR '';'') (fk_line r comma)"
    unfolding fk_line_def by simp
  then show ?thesis by (auto simp only: list_all_iff)
qed

lemma concat_lines_no_semicolon:
  "(\<And>j. j < k \<Longrightarrow> CHR '';'' \<notin> set (L j)) \<Longrightarrow> CHR '';'' \<notin> set (concat (map L [0..<k]))"
  by auto

lemma word1_plural_space:
  assumes "list_all isword w"
  shows "word1 (w @ CHR ''s'' # CHR '' '' # r) = Some (w @ ''s'', CHR '' '' # r)"
proof -
  have "word_name (w @ ''s'')" using assms by (simp add: word_name_def)
  then have "word1 ((w @ ''s'') @ CHR '' '' # r) = Some (w @ ''s'', CHR '' '' # r)"
    by (rule word1_word) simp
  then show ?thesis by simp
qed

lemma if_not_exists_name:
  assumes "list_all isword w"
  shows "if_not_exists (''IF NOT EXISTS '' @ w @ CHR ''s'' # r) = Some (w @ CHR ''s'' # r)"
  by (simp add: if_not_exists_def spaces1_char spaces1_plural [OF assms])

lemma create_at_generated:
  assumes "list_all isword w" "CHR '';'' \<notin> set body"
  shows "create_at (''CREATE TABLE IF NOT EXISTS '' @ w @ ''s ('' @ body @ '');'' @ rest)
           = Some (w @ ''s'', body, rest)"
proof -
  have i: "if_not_exists (''IF NOT EXISTS '' @ w @ CHR ''s'' # CHR '' '' # CHR ''('' # body @ '');'' @ rest)
      = Some (w @ CHR ''s'' # CHR '' '' # CHR ''('' # body @ '');'' @ rest)"
    using assms(1) by (rule if_not_exists_name)
  have u: "until_close (body @ CHR '')'' # CHR '';'' # rest) = Some (body, rest)"
    using until_close_body [OF assms(2), of rest] by simp
  show ?thesis
    using i
    by (simp add: create_at_def spaces1_char spaces0_space word1_plural_space [OF assms(1)] u)
qed

lemma findall_create_match:
  assumes "create_at (c # cs @ rest) = Some (table_name, body, rest)"
  shows "findall_create 0 (c # cs @ rest) = (table_name, body) # findall_create 0 rest"
  using assms by (simp add: findall_create_skip)

lemma lower_char_newline: "lower_char CHR ''\<newline>'' \<noteq> lower_char CHR ''C''"
  by code_simp

lemma findall_create_separator:
  "findall_create 0 (''\<newline>\<newline>'' @ s) = findall_create 0 s"
  by (simp add: create_at_def lower_char_newline)

text \<open>One generated table, read back.\<close>

lemma parse_generated_table:
  assumes "list_all isword (name t)" "list_all word_name (table_attributes t)"
    and "list_all (\<lambda>r. word_name (fromColumn r) \<and> list_all isword (toTable r)
           \<and> word_name (toColumn r)) rels"
  shows "parse_matches (findall_create 0 (generate_table_sql t all_tables rels @ rest)) (tabs, acc)
     = parse_matches (findall_create 0 rest)
         (tabs @ [\<lparr>name = name t @ ''s'', attributes = table_attributes t,
                   columns = map (\<lambda>a. \<lparr>col_name = a, col_type = data_type a\<rparr>) (table_attributes t)\<rparr>],
          acc @ map (\<lambda>r. \<lparr>fromTable = name t @ ''s'', fromColumn = fromColumn r,
                toTable = toTable r @ ''s'', toColumn = toColumn r\<rparr>) (table_relationships t rels))"
proof -
  define body where "body = ''\<newline>''
      @ concat (map (\<lambda>j. attr_line (table_attributes t ! j) (j = pk_index (table_attributes t))
                           (int j \<noteq> int (length (table_attributes t)) - 1 \<or> rels \<noteq> []))
                 [0..<length (table_attributes t)])
      @ concat (map (\<lambda>j. fk_line (table_relationships t rels ! j)
                           (int j < int (length (table_relationships t rels)) - 1))
                 [0..<length (table_relationships t rels)])"
  have g: "generate_table_sql t all_tables rels
      = ''CREATE TABLE IF NOT EXISTS '' @ name t @ ''s ('' @ body @ '');''"
    unfolding body_def by (rule generate_table_sql_body)
  have d: "column_definitions body
      = map (\<lambda>j. attr_core (table_attributes t ! j) (j = pk_index (table_attributes t)))
         [0..<length (table_attributes t)]
       @ map fk_core (table_relationships t rels)"
    unfolding body_def using assms(2,3) by (rule table_body_definitions)
  have tr: "list_all (\<lambda>r. word_name (fromColumn r) \<and> list_all isword (toTable r)
           \<and> word_name (toColumn r)) (table_relationships t rels)"
    using assms(3) by (rule table_rels_word)
  have s1: "CHR '';'' \<notin> set (concat (map (\<lambda>j. attr_line (table_attributes t ! j)
      (j = pk_index (table_attributes t))
      (int j \<noteq> int (length (table_attributes t)) - 1 \<or> rels \<noteq> []))
      [0..<length (table_attributes t)]))"
    using assms(2)
    by (intro concat_lines_no_semicolon attr_line_no_semicolon) (simp add: list_all_length)
  have s2: "CHR '';'' \<notin> set (concat (map (\<lambda>j. fk_line (table_relationships t rels ! j)
      (int j < int (length (table_relationships t rels)) - 1))
      [0..<length (table_relationships t rels)]))"
    using tr
    by (intro concat_lines_no_semicolon fk_line_no_semicolon) (simp_all add: list_all_length)
  have s: "CHR '';'' \<notin> set body"
    using s1 s2 unfolding body_def by simp
  have c: "create_at (''CREATE TABLE IF NOT EXISTS '' @ name t @ ''s ('' @ body @ '');'' @ rest)
      = Some (name t @ ''s'', body, rest)"
    using assms(1) s by (rule create_at_generated)
  have f: "findall_create 0 (generate_table_sql t all_tables rels @ rest)
      = (name t @ ''s'', body) # findall_create 0 rest"
  proof -
    have "create_at (CHR ''C'' # (''REATE TABLE IF NOT EXISTS '' @ name t @ ''s ('' @ body @ '');'') @ rest)
      = Some (name t @ ''s'', body, rest)"
      using c by simp
    then have "findall_create 0 (CHR ''C'' # (''REATE TABLE IF NOT EXISTS '' @ name t @ ''s ('' @ body @ '');'') @ rest)
      = (name t @ ''s'', body) # findall_create 0 rest"
      by (rule findall_create_match)
    then show ?thesis by (simp add: g)
  qed
  have p: "parse_definitions (name t @ ''s'') (column_definitions body) ([], [], acc)
     = (table_attributes t,
        map (\<lambda>a. \<lparr>col_name = a, col_type = data_type a\<rparr>) (table_attributes t),
        acc @ map (\<lambda>r. \<lparr>fromTable = name t @ ''s'', fromColumn = fromColumn r,
                toTable = toTable r @ ''s'', toColumn = toColumn r\<rparr>) (table_relationships t rels))"
    unfolding d using assms(2,3) by (rule parse_table_definitions)
  show ?thesis
    by (simp only: f parse_matches.simps p prod.case)
qed

text \<open>The whole generated text, read back.\<close>

lemma parse_generated_tables:
  assumes "list_all (\<lambda>t. list_all isword (name t) \<and> list_all word_name (table_attributes t)) ts"
    and "list_all (\<lambda>r. word_name (fromColumn r) \<and> list_all isword (toTable r)
           \<and> word_name (toColumn r)) rels"
  shows "parse_matches (findall_create 0
           (join ''\<newline>\<newline>'' (map (\<lambda>t. generate_table_sql t all_tables rels) ts))) (tabs, acc)
     = (tabs @ map (\<lambda>t. \<lparr>name = name t @ ''s'', attributes = table_attributes t,
                   columns = map (\<lambda>a. \<lparr>col_name = a, col_type = data_type a\<rparr>) (table_attributes t)\<rparr>) ts,
        acc @ concat (map (\<lambda>t. map (\<lambda>r. \<lparr>fromTable = name t @ ''s'', fromColumn = fromColumn r,
                toTable = toTable r @ ''s'', toColumn = toColumn r\<rparr>) (table_relationships t rels)) ts))"
  using assms(1)
proof (induction ts arbitrary: tabs acc rule: induct_list012)
  case 1
  then show ?case by simp
next
  case (2 t)
  then have w: "list_all isword (name t)" "list_all word_name (table_attributes t)" by simp_all
  have "join ''\<newline>\<newline>'' (map (\<lambda>t. generate_table_sql t all_tables rels) [t])
      = generate_table_sql t all_tables rels @ []"
    by simp
  then show ?case
    by (simp only: parse_generated_table [OF w assms(2)]) simp
next
  case (3 t u ts)
  then have w: "list_all isword (name t)" "list_all word_name (table_attributes t)"
    and r: "list_all (\<lambda>t. list_all isword (name t) \<and> list_all word_name (table_attributes t)) (u # ts)"
    by simp_all
  have j: "join ''\<newline>\<newline>'' (map (\<lambda>t. generate_table_sql t all_tables rels) (t # u # ts))
      = generate_table_sql t all_tables rels
        @ (''\<newline>\<newline>'' @ join ''\<newline>\<newline>'' (map (\<lambda>t. generate_table_sql t all_tables rels) (u # ts)))"
    by simp
  show ?case
    by (simp only: j parse_generated_table [OF w assms(2)] findall_create_separator
        "3.IH"(2) [OF r]) simp
qed

text \<open>
  C1, as amended. For a schema whose names are words of the class \<open>\w\<close> (attribute and
  column names not empty), parsing the generated text gives back the tables in order,
  each under its name with the \<open>s\<close> the generator appends, with its attribute names in
  order and one column per attribute with the inferred type, and the relationships that
  start at a table of the schema, table by table in the order of the input, with the
  \<open>s\<close> appended to both table names; columns and relationship columns are unchanged.
\<close>

theorem parse_generate_pluralised:
  assumes "word_schema s"
  shows "parse_sql_to_schema (generate_sql_from_structured_schema s)
     = \<lparr>tables = map (\<lambda>t. \<lparr>name = name t @ ''s'', attributes = table_attributes t,
                   columns = map (\<lambda>a. \<lparr>col_name = a, col_type = data_type a\<rparr>) (table_attributes t)\<rparr>)
                 (tables s),
        relationships = concat (map (\<lambda>t. map (\<lambda>r. \<lparr>fromTable = name t @ ''s'',
                fromColumn = fromColumn r, toTable = toTable r @ ''s'', toColumn = toColumn r\<rparr>)
                (table_relationships t (relationships s))) (tables s))\<rparr>"
proof -
  from assms have a: "list_all (\<lambda>t. list_all isword (name t)
      \<and> list_all word_name (table_attributes t)) (tables s)"
    and b: "list_all (\<lambda>r. word_name (fromColumn r) \<and> list_all isword (toTable r)
      \<and> word_name (toColumn r)) (relationships s)"
    by (simp_all add: word_schema_def)
  show ?thesis
    unfolding parse_sql_to_schema_def generate_sql_from_structured_schema_def
    by (simp only: parse_generated_tables [OF a b] prod.case append_Nil)
qed

theorem parse_generate_pluralised_witness:
  "word_schema
     \<lparr>tables = [\<lparr>name = ''Book'', attributes = [''Book_ID'', ''Title''], columns = []\<rparr>,
                \<lparr>name = ''Loan'', attributes = [''Loan_ID'', ''Book_ID'', ''Loan_Date''], columns = []\<rparr>],
      relationships = [\<lparr>fromTable = ''Loan'', fromColumn = ''Book_ID'', toTable = ''Book'',
                         toColumn = ''Book_ID''\<rparr>]\<rparr>
   \<and> parse_sql_to_schema (generate_sql_from_structured_schema
     \<lparr>tables = [\<lparr>name = ''Book'', attributes = [''Book_ID'', ''Title''], columns = []\<rparr>,
                \<lparr>name = ''Loan'', attributes = [''Loan_ID'', ''Book_ID'', ''Loan_Date''], columns = []\<rparr>],
      relationships = [\<lparr>fromTable = ''Loan'', fromColumn = ''Book_ID'', toTable = ''Book'',
                         toColumn = ''Book_ID''\<rparr>]\<rparr>)
     = \<lparr>tables = [\<lparr>name = ''Books'', attributes = [''Book_ID'', ''Title''],
                   columns = [\<lparr>col_name = ''Book_ID'', col_type = ''INTEGER''\<rparr>,
                              \<lparr>col_name = ''Title'', col_type = ''TEXT''\<rparr>]\<rparr>,
                  \<lparr>name = ''Loans'', attributes = [''Loan_ID'', ''Book_ID'', ''Loan_Date''],
                   columns = [\<lparr>col_name = ''Loan_ID'', col_type = ''INTEGER''\<rparr>,
                              \<lparr>col_name = ''Book_ID'', col_type = ''INTEGER''\<rparr>,
                              \<lparr>col_name = ''Loan_Date'', col_type = ''DATE''\<rparr>]\<rparr>],
        relationships = [\<lparr>fromTable = ''Loans'', fromColumn = ''Book_ID'', toTable = ''Books'',
                           toColumn = ''Book_ID''\<rparr>]\<rparr>"
proof -
  let ?s = "\<lparr>tables = [\<lparr>name = ''Book'', attributes = [''Book_ID'', ''Title''], columns = []\<rparr>,
                \<lparr>name = ''Loan'', attributes = [''Loan_ID'', ''Book_ID'', ''Loan_Date''], columns = []\<rparr>],
      relationships = [\<lparr>fromTable = ''Loan'', fromColumn = ''Book_ID'', toTable = ''Book'',
                         toColumn = ''Book_ID''\<rparr>]\<rparr>"
  have h: "word_schema ?s" by code_simp
  have e: "\<lparr>tables = map (\<lambda>t. \<lparr>name = name t @ ''s'', attributes = table_attributes t,
                   columns = map (\<lambda>a. \<lparr>col_name = a, col_type = data_type a\<rparr>) (table_attributes t)\<rparr>)
                 (tables ?s),
        relationships = concat (map (\<lambda>t. map (\<lambda>r. \<lparr>fromTable = name t @ ''s'',
                fromColumn = fromColumn r, toTable = toTable r @ ''s'', toColumn = toColumn r\<rparr>)
                (table_relationships t (relationships ?s))) (tables ?s))\<rparr>
     = \<lparr>tables = [\<lparr>name = ''Books'', attributes = [''Book_ID'', ''Title''],
                   columns = [\<lparr>col_name = ''Book_ID'', col_type = ''INTEGER''\<rparr>,
                              \<lparr>col_name = ''Title'', col_type = ''TEXT''\<rparr>]\<rparr>,
                  \<lparr>name = ''Loans'', attributes = [''Loan_ID'', ''Book_ID'', ''Loan_Date''],
                   columns = [\<lparr>col_name = ''Loan_ID'', col_type = ''INTEGER''\<rparr>,
                              \<lparr>col_name = ''Book_ID'', col_type = ''INTEGER''\<rparr>,
                              \<lparr>col_name = ''Loan_Date'', col_type = ''DATE''\<rparr>]\<rparr>],
        relationships = [\<lparr>fromTable = ''Loans'', fromColumn = ''Book_ID'', toTable = ''Books'',
                           toColumn = ''Book_ID''\<rparr>]\<rparr>"
    by code_simp
  show ?thesis
    using h trans [OF parse_generate_pluralised [OF h] e] by (rule conjI)
qed

text \<open>
  C1, as the specification states it, fails: the tables \<open>Student\<close> and \<open>Borrowing\<close> come
  back as \<open>Students\<close> and \<open>Borrowings\<close>, and so do the two ends of the relationship.
\<close>

theorem parse_generate_names_counterexample:
  "map name (tables (parse_sql_to_schema (generate_sql_from_structured_schema
     \<lparr>tables = [\<lparr>name = ''Student'', attributes = [''Student_ID'', ''Name''], columns = []\<rparr>,
                \<lparr>name = ''Borrowing'', attributes = [''Borrowing_ID'', ''Student_ID''], columns = []\<rparr>],
      relationships = [\<lparr>fromTable = ''Borrowing'', fromColumn = ''Student_ID'',
                         toTable = ''Student'', toColumn = ''Student_ID''\<rparr>]\<rparr>)))
     = [''Students'', ''Borrowings'']
   \<and> [''Students'', ''Borrowings''] \<noteq> [''Student'', ''Borrowing'']
   \<and> relationships (parse_sql_to_schema (generate_sql_from_structured_schema
     \<lparr>tables = [\<lparr>name = ''Student'', attributes = [''Student_ID'', ''Name''], columns = []\<rparr>,
                \<lparr>name = ''Borrowing'', attributes = [''Borrowing_ID'', ''Student_ID''], columns = []\<rparr>],
      relationships = [\<lparr>fromTable = ''Borrowing'', fromColumn = ''Student_ID'',
                         toTable = ''Student'', toColumn = ''Student_ID''\<rparr>]\<rparr>))
     = [\<lparr>fromTable = ''Borrowings'', fromColumn = ''Student_ID'',
         toTable = ''Students'', toColumn = ''Student_ID''\<rparr>]
   \<and> \<lparr>fromTable = ''Borrowings'', fromColumn = ''Student_ID'',
         toTable = ''Students'', toColumn = ''Student_ID''\<rparr>
     \<noteq> \<lparr>fromTable = ''Borrowing'', fromColumn = ''Student_ID'',
         toTable = ''Student'', toColumn = ''Student_ID''\<rparr>"
  by code_simp

section \<open>The primary key\<close>

lemma occurrences_no_first:
  "CHR ''P'' \<notin> set a \<Longrightarrow> occurrences ''PRIMARY KEY'' (a @ b) = occurrences ''PRIMARY KEY'' b"
  by (induction a) auto

lemma primary_key_split:
  assumes "list_all isword w" "b = [] \<or> \<not> isword (hd b)" "prefix ''PRIMARY KEY'' (w @ b)"
  shows "prefix '' KEY'' b"
proof -
  from assms(3) obtain z where z: "w @ b = ''PRIMARY KEY'' @ z" by (auto simp: prefix_def)
  have w: "\<And>x. x \<in> set w \<Longrightarrow> isword x" using assms(1) by (simp add: list_all_iff)
  have "dropWhile isword b = b" using assms(2) by (cases b) simp_all
  then have "dropWhile isword (w @ b) = b" using w by (simp add: dropWhile_append2)
  moreover have "dropWhile isword (''PRIMARY KEY'' @ z) = '' KEY'' @ z"
    by (simp add: isword_def)
  ultimately have "b = '' KEY'' @ z" using z by simp
  then show ?thesis by (simp only: prefixI)
qed

lemma occurrences_word:
  assumes "list_all isword w" "b = [] \<or> \<not> isword (hd b)" "\<not> prefix '' KEY'' b"
  shows "occurrences ''PRIMARY KEY'' (w @ b) = occurrences ''PRIMARY KEY'' b"
  using assms(1)
proof (induction w)
  case Nil
  then show ?case by simp
next
  case (Cons c w)
  have "\<not> prefix ''PRIMARY KEY'' ((c # w) @ b)"
    using primary_key_split [OF Cons.prems assms(2)] assms(3) by blast
  then show ?case using Cons by simp
qed

lemma occurrences_data_type:
  "occurrences ''PRIMARY KEY'' (data_type a @ b) = occurrences ''PRIMARY KEY'' b"
  using data_type_cases [of a] by (elim disjE) (simp_all add: occurrences_no_first)

lemma data_type_not_key: "\<not> prefix ''KEY'' (data_type a @ b)"
  using data_type_cases [of a] by (elim disjE) simp_all

text \<open>The key word occurs once in the line of an attribute that is written with the
  primary key, and in no other line.\<close>

lemma occurrences_attr_line:
  assumes "word_name a"
  shows "occurrences ''PRIMARY KEY'' (attr_line a pk comma @ rest)
           = (if pk then 1 else 0) + occurrences ''PRIMARY KEY'' rest"
proof -
  define u where "u = (if contains ''email'' (lower a) then '' UNIQUE'' else [])
     @ (if contains ''name'' (lower a) \<and> \<not> endswith (lower a) ''_id'' then '' NOT NULL'' else [])
     @ (if comma then '','' else []) @ ''\<newline>''"
  define t where "t = (if pk then '' PRIMARY KEY'' else []) @ u @ rest"
  have l: "attr_line a pk comma @ rest = ''  '' @ a @ CHR '' '' # data_type a @ t"
    by (simp add: attr_line_def t_def u_def)
  have w: "list_all isword a" using assms by (simp add: word_name_def)
  have nu: "CHR ''P'' \<notin> set u" by (simp add: u_def)
  have "occurrences ''PRIMARY KEY'' (''  '' @ a @ CHR '' '' # data_type a @ t)
      = occurrences ''PRIMARY KEY'' (a @ CHR '' '' # data_type a @ t)"
    by (rule occurrences_no_first) simp
  also have "\<dots> = occurrences ''PRIMARY KEY'' (CHR '' '' # data_type a @ t)"
    using w by (rule occurrences_word) (simp_all add: data_type_not_key)
  also have "\<dots> = occurrences ''PRIMARY KEY'' (data_type a @ t)" by simp
  also have "\<dots> = occurrences ''PRIMARY KEY'' t" by (rule occurrences_data_type)
  also have "\<dots> = (if pk then 1 else 0) + occurrences ''PRIMARY KEY'' (u @ rest)"
    by (simp add: t_def)
  also have "occurrences ''PRIMARY KEY'' (u @ rest) = occurrences ''PRIMARY KEY'' rest"
    using nu by (rule occurrences_no_first)
  finally show ?thesis by (simp only: l)
qed

lemma occurrences_fk_line:
  assumes "word_name (fromColumn r)" "list_all isword (toTable r)" "word_name (toColumn r)"
  shows "occurrences ''PRIMARY KEY'' (fk_line r comma @ rest) = occurrences ''PRIMARY KEY'' rest"
proof -
  define e where "e = '')'' @ (if comma then '','' else []) @ ''\<newline>''"
  have l: "fk_line r comma @ rest
      = ''  FOREIGN KEY ('' @ fromColumn r @ '') REFERENCES '' @ (toTable r @ ''s'')
        @ ''('' @ toColumn r @ e @ rest"
    by (simp add: fk_line_def e_def)
  have w1: "list_all isword (fromColumn r)" and w3: "list_all isword (toColumn r)"
    using assms(1,3) by (simp_all add: word_name_def)
  have w2: "list_all isword (toTable r @ ''s'')" using assms(2) by simp
  have ne: "CHR ''P'' \<notin> set e" by (simp add: e_def)
  have he: "hd (e @ rest) = CHR '')''" by (simp add: e_def)
  have "occurrences ''PRIMARY KEY'' (''  FOREIGN KEY ('' @ fromColumn r @ '') REFERENCES ''
        @ (toTable r @ ''s'') @ ''('' @ toColumn r @ e @ rest)
      = occurrences ''PRIMARY KEY'' (fromColumn r @ '') REFERENCES ''
        @ (toTable r @ ''s'') @ ''('' @ toColumn r @ e @ rest)"
    by (rule occurrences_no_first) simp
  also have "\<dots> = occurrences ''PRIMARY KEY'' ('') REFERENCES ''
        @ (toTable r @ ''s'') @ ''('' @ toColumn r @ e @ rest)"
    using w1 by (rule occurrences_word) simp_all
  also have "\<dots> = occurrences ''PRIMARY KEY'' ((toTable r @ ''s'') @ ''('' @ toColumn r @ e @ rest)"
    by (rule occurrences_no_first) simp
  also have "\<dots> = occurrences ''PRIMARY KEY'' (''('' @ toColumn r @ e @ rest)"
    using w2 by (rule occurrences_word) simp_all
  also have "\<dots> = occurrences ''PRIMARY KEY'' (toColumn r @ e @ rest)"
    by (rule occurrences_no_first) simp
  also have "\<dots> = occurrences ''PRIMARY KEY'' (e @ rest)"
    using w3 by (rule occurrences_word) (simp_all add: he e_def)
  also have "\<dots> = occurrences ''PRIMARY KEY'' rest"
    using ne by (rule occurrences_no_first)
  finally show ?thesis by (simp only: l)
qed

lemma occurrences_create_header:
  assumes "list_all isword (name t)"
  shows "occurrences ''PRIMARY KEY'' (create_header t @ rest) = occurrences ''PRIMARY KEY'' rest"
proof -
  have l: "create_header t @ rest
      = ''CREATE TABLE IF NOT EXISTS '' @ (name t @ ''s'') @ '' (\<newline>'' @ rest"
    by (simp add: create_header_def)
  have w: "list_all isword (name t @ ''s'')" using assms by simp
  have "occurrences ''PRIMARY KEY'' (''CREATE TABLE IF NOT EXISTS '' @ (name t @ ''s'') @ '' (\<newline>'' @ rest)
      = occurrences ''PRIMARY KEY'' ((name t @ ''s'') @ '' (\<newline>'' @ rest)"
    by (rule occurrences_no_first) simp
  also have "\<dots> = occurrences ''PRIMARY KEY'' ('' (\<newline>'' @ rest)"
    using w by (rule occurrences_word) simp_all
  also have "\<dots> = occurrences ''PRIMARY KEY'' rest"
    by (rule occurrences_no_first) simp
  finally show ?thesis by (simp only: l)
qed

lemma occurrences_attr_lines:
  assumes "\<forall>j < n. word_name (as ! j)"
  shows "occurrences ''PRIMARY KEY'' (concat (map (\<lambda>j. attr_line (as ! j) (j = k) (C j)) [0..<n]) @ rest)
           = (if k < n then 1 else 0) + occurrences ''PRIMARY KEY'' rest"
  using assms
proof (induction n arbitrary: rest)
  case 0
  then show ?case by simp
next
  case (Suc n)
  have w: "word_name (as ! n)" and r: "\<forall>j < n. word_name (as ! j)" using Suc.prems by simp_all
  have "concat (map (\<lambda>j. attr_line (as ! j) (j = k) (C j)) [0..<Suc n]) @ rest
      = concat (map (\<lambda>j. attr_line (as ! j) (j = k) (C j)) [0..<n])
        @ (attr_line (as ! n) (n = k) (C n) @ rest)"
    by simp
  then have "occurrences ''PRIMARY KEY'' (concat (map (\<lambda>j. attr_line (as ! j) (j = k) (C j)) [0..<Suc n]) @ rest)
      = (if k < n then 1 else 0)
        + occurrences ''PRIMARY KEY'' (attr_line (as ! n) (n = k) (C n) @ rest)"
    using Suc.IH [OF r] by (simp only:)
  also have "\<dots> = (if k < n then 1 else 0) + ((if n = k then 1 else 0)
      + occurrences ''PRIMARY KEY'' rest)"
    by (simp only: occurrences_attr_line [OF w])
  also have "\<dots> = (if k < Suc n then 1 else 0) + occurrences ''PRIMARY KEY'' rest"
    by auto
  finally show ?case .
qed

lemma occurrences_fk_lines:
  assumes "\<forall>j < n. word_name (fromColumn (rs ! j)) \<and> list_all isword (toTable (rs ! j))
      \<and> word_name (toColumn (rs ! j))"
  shows "occurrences ''PRIMARY KEY'' (concat (map (\<lambda>j. fk_line (rs ! j) (C j)) [0..<n]) @ rest)
           = occurrences ''PRIMARY KEY'' rest"
  using assms
proof (induction n arbitrary: rest)
  case 0
  then show ?case by simp
next
  case (Suc n)
  have w: "word_name (fromColumn (rs ! n))" "list_all isword (toTable (rs ! n))"
      "word_name (toColumn (rs ! n))"
    and r: "\<forall>j < n. word_name (fromColumn (rs ! j)) \<and> list_all isword (toTable (rs ! j))
      \<and> word_name (toColumn (rs ! j))"
    using Suc.prems by simp_all
  have "concat (map (\<lambda>j. fk_line (rs ! j) (C j)) [0..<Suc n]) @ rest
      = concat (map (\<lambda>j. fk_line (rs ! j) (C j)) [0..<n]) @ (fk_line (rs ! n) (C n) @ rest)"
    by simp
  then have "occurrences ''PRIMARY KEY'' (concat (map (\<lambda>j. fk_line (rs ! j) (C j)) [0..<Suc n]) @ rest)
      = occurrences ''PRIMARY KEY'' (fk_line (rs ! n) (C n) @ rest)"
    using Suc.IH [OF r] by (simp only:)
  then show ?case by (simp only: occurrences_fk_line [OF w])
qed

lemma is_id_suffix: "is_id a = endswith (lower a) ''_id''"
  using id_suffix_not_name [of "lower a"] by (auto simp: is_id_def)

lemma pk_index_less: "(pk_index attrs < length attrs) = list_ex is_id attrs"
  by (induction attrs) (simp_all add: pk_index_def)

lemma occurrences_generate_table_sql:
  assumes "list_all isword (name t)" "list_all word_name (table_attributes t)"
    and "list_all (\<lambda>r. word_name (fromColumn r) \<and> list_all isword (toTable r)
           \<and> word_name (toColumn r)) (table_relationships t rels)"
  shows "occurrences ''PRIMARY KEY'' (generate_table_sql t all_tables rels)
           = (if list_ex is_id (table_attributes t) then 1 else 0)"
proof -
  have a: "\<forall>j < length (table_attributes t). word_name (table_attributes t ! j)"
    using assms(2) by (simp add: list_all_length)
  have f: "\<forall>j < length (table_relationships t rels).
      word_name (fromColumn (table_relationships t rels ! j))
      \<and> list_all isword (toTable (table_relationships t rels ! j))
      \<and> word_name (toColumn (table_relationships t rels ! j))"
    using assms(3) by (simp add: list_all_length)
  have e: "occurrences ''PRIMARY KEY'' '');'' = 0" by simp
  show ?thesis
    by (simp only: generate_table_sql_unfold occurrences_create_header [OF assms(1)]
        occurrences_attr_lines [OF a] occurrences_fk_lines [OF f] e pk_index_less add_0_right)
qed

lemma list_ex_is_id: "list_ex is_id attrs = list_ex (\<lambda>a. endswith (lower a) ''_id'') attrs"
  by (simp add: list_ex_iff is_id_suffix)

lemma occurrences_one_attr_line:
  assumes "word_name a"
  shows "occurrences ''PRIMARY KEY'' (attr_line a pk comma) = (if pk then 1 else 0)"
  using occurrences_attr_line [OF assms, of pk comma "[]"] by simp

text \<open>
  C6, as the specification states it, fails. The id pattern of the specification is a
  name that ends with \<open>_id\<close> or \<open>id\<close> and not with \<open>name\<close>: \<open>Sessionid\<close> matches it
  and comes first, and the key goes to \<open>Student_ID\<close>, the second attribute matching it.
  And a name that carries the words puts them in the text a second time.
\<close>

theorem primary_key_sessionid_counterexample:
  "endswith (lower ''Sessionid'') ''id'' \<and> \<not> endswith (lower ''Sessionid'') ''name''
   \<and> generate_table_sql
       \<lparr>name = ''Session'', attributes = [''Sessionid'', ''Student_ID''], columns = []\<rparr> [] []
     = ''CREATE TABLE IF NOT EXISTS Sessions (\<newline>  Sessionid TEXT,\<newline>  Student_ID INTEGER PRIMARY KEY\<newline>);''
   \<and> generate_table_sql \<lparr>name = ''Note'', attributes = [''PRIMARY KEY_id''], columns = []\<rparr> [] []
     = ''CREATE TABLE IF NOT EXISTS Notes (\<newline>  PRIMARY KEY_id INTEGER PRIMARY KEY\<newline>);''
   \<and> occurrences ''PRIMARY KEY''
       (generate_table_sql \<lparr>name = ''Note'', attributes = [''PRIMARY KEY_id''], columns = []\<rparr> [] [])
     = 2"
  by code_simp

text \<open>
  C6, as amended. The id pattern the generator tests is the suffix \<open>_id\<close> of the
  lower-cased name (such a name never ends with \<open>name\<close>). For a table whose name,
  attribute names and foreign-key names are words of the class \<open>\w\<close>, the words
  \<open>PRIMARY KEY\<close> occur in the generated text once when some attribute matches and not
  at all otherwise. The text is the header, one line for each attribute, the
  foreign-key lines and the closing \<open>);\<close>; the line of attribute \<open>j\<close> holds the words,
  once, exactly when \<open>j\<close> is \<open>pk_index\<close>, the position of the first attribute that
  matches: the attribute there matches and none before it does. When no attribute
  matches, that position is past the last attribute and the text is generated all the
  same.
\<close>

theorem primary_key_first_id_suffix:
  assumes "list_all isword (name t)" "list_all word_name (table_attributes t)"
    and "list_all (\<lambda>r. word_name (fromColumn r) \<and> list_all isword (toTable r)
           \<and> word_name (toColumn r)) (table_relationships t rels)"
  shows "occurrences ''PRIMARY KEY'' (generate_table_sql t all_tables rels)
       = (if list_ex (\<lambda>a. endswith (lower a) ''_id'') (table_attributes t) then 1 else 0)
   \<and> generate_table_sql t all_tables rels =
       create_header t
       @ concat (map (\<lambda>j. attr_line (table_attributes t ! j) (j = pk_index (table_attributes t))
                             (int j \<noteq> int (length (table_attributes t)) - 1 \<or> rels \<noteq> []))
                   [0..<length (table_attributes t)])
       @ concat (map (\<lambda>j. fk_line (table_relationships t rels ! j)
                             (int j < int (length (table_relationships t rels)) - 1))
                   [0..<length (table_relationships t rels)])
       @ '');''
   \<and> (\<forall>j < length (table_attributes t). \<forall>comma.
        occurrences ''PRIMARY KEY''
          (attr_line (table_attributes t ! j) (j = pk_index (table_attributes t)) comma)
        = (if j = pk_index (table_attributes t) then 1 else 0))
   \<and> (pk_index (table_attributes t) < length (table_attributes t))
       = list_ex (\<lambda>a. endswith (lower a) ''_id'') (table_attributes t)
   \<and> (pk_index (table_attributes t) < length (table_attributes t) \<longrightarrow>
        endswith (lower (table_attributes t ! pk_index (table_attributes t))) ''_id'')
   \<and> (\<forall>j < pk_index (table_attributes t). \<not> endswith (lower (table_attributes t ! j)) ''_id'')"
proof (intro conjI)
  show "occurrences ''PRIMARY KEY'' (generate_table_sql t all_tables rels)
       = (if list_ex (\<lambda>a. endswith (lower a) ''_id'') (table_attributes t) then 1 else 0)"
    using occurrences_generate_table_sql [OF assms] by (simp only: list_ex_is_id)
  show "generate_table_sql t all_tables rels =
       create_header t
       @ concat (map (\<lambda>j. attr_line (table_attributes t ! j) (j = pk_index (table_attributes t))
                             (int j \<noteq> int (length (table_attributes t)) - 1 \<or> rels \<noteq> []))
                   [0..<length (table_attributes t)])
       @ concat (map (\<lambda>j. fk_line (table_relationships t rels ! j)
                             (int j < int (length (table_relationships t rels)) - 1))
                   [0..<length (table_relationships t rels)])
       @ '');''"
    by (rule generate_table_sql_unfold)
  show "\<forall>j < length (table_attributes t). \<forall>comma.
        occurrences ''PRIMARY KEY''
          (attr_line (table_attributes t ! j) (j = pk_index (table_attributes t)) comma)
        = (if j = pk_index (table_attributes t) then 1 else 0)"
    using assms(2) by (simp add: list_all_length occurrences_one_attr_line)
  show "(pk_index (table_attributes t) < length (table_attributes t))
       = list_ex (\<lambda>a. endswith (lower a) ''_id'') (table_attributes t)"
    by (simp only: pk_index_less list_ex_is_id)
  show "pk_index (table_attributes t) < length (table_attributes t) \<longrightarrow>
        endswith (lower (table_attributes t ! pk_index (table_attributes t))) ''_id''"
    using pk_index_first [of "table_attributes t"] by (simp only: is_id_suffix) blast
  show "\<forall>j < pk_index (table_attributes t). \<not> endswith (lower (table_attributes t ! j)) ''_id''"
    using pk_index_first [of "table_attributes t"] by (simp only: is_id_suffix) blast
qed

theorem primary_key_first_id_suffix_witness:
  "list_all isword (name
       \<lparr>name = ''Borrowing'', attributes = [''ISBN'', ''Borrowing_ID'', ''Student_ID''], columns = []\<rparr>)
   \<and> list_all word_name (table_attributes
       \<lparr>name = ''Borrowing'', attributes = [''ISBN'', ''Borrowing_ID'', ''Student_ID''], columns = []\<rparr>)
   \<and> occurrences ''PRIMARY KEY'' (generate_table_sql
       \<lparr>name = ''Borrowing'', attributes = [''ISBN'', ''Borrowing_ID'', ''Student_ID''], columns = []\<rparr>
       [] []) = 1
   \<and> generate_table_sql
       \<lparr>name = ''Borrowing'', attributes = [''ISBN'', ''Borrowing_ID'', ''Student_ID''], columns = []\<rparr>
       [] []
     = ''CREATE TABLE IF NOT EXISTS Borrowings (\<newline>  ISBN TEXT,\<newline>  Borrowing_ID INTEGER PRIMARY KEY,\<newline>  Student_ID INTEGER\<newline>);''
   \<and> pk_index (table_attributes
       \<lparr>name = ''Borrowing'', attributes = [''ISBN'', ''Borrowing_ID'', ''Student_ID''], columns = []\<rparr>) = 1"
proof -
  let ?t = "\<lparr>name = ''Borrowing'', attributes = [''ISBN'', ''Borrowing_ID'', ''Student_ID''], columns = []\<rparr>"
  have h1: "list_all isword (name ?t)" by code_simp
  have h2: "list_all word_name (table_attributes ?t)" by code_simp
  have h3: "list_all (\<lambda>r. word_name (fromColumn r) \<and> list_all isword (toTable r)
           \<and> word_name (toColumn r)) (table_relationships ?t [])"
    by code_simp
  have h4: "list_ex (\<lambda>a. endswith (lower a) ''_id'') (table_attributes ?t)" by code_simp
  have h5: "pk_index (table_attributes ?t) = 1" by code_simp
  have h6: "generate_table_sql ?t [] []
     = ''CREATE TABLE IF NOT EXISTS Borrowings (\<newline>  ISBN TEXT,\<newline>  Borrowing_ID INTEGER PRIMARY KEY,\<newline>  Student_ID INTEGER\<newline>);''"
    by code_simp
  from primary_key_first_id_suffix [OF h1 h2 h3, of "[]"]
  have "occurrences ''PRIMARY KEY'' (generate_table_sql ?t [] [])
       = (if list_ex (\<lambda>a. endswith (lower a) ''_id'') (table_attributes ?t) then 1 else 0)"
    by (rule conjunct1)
  then have "occurrences ''PRIMARY KEY'' (generate_table_sql ?t [] []) = 1"
    by (simp only: h4 if_True)
  then show ?thesis using h1 h2 h5 h6 by blast
qed

end
